theory Spec2Isabelle
  imports Complex_Main "HOL-Library.AList" "HOL-Library.Sublist"
begin

section \<open>Strings\<close>

text \<open>
  Python strings are modelled as \<^typ>\<open>string\<close>, read as ASCII text: the character
  classes below are the ones Python's \<open>str.lower\<close>, \<open>str.strip\<close> and the \<open>re\<close> classes
  \<open>\w\<close> and \<open>\s\<close> have on code points below 128. Code points beyond ASCII are outside
  the model.
\<close>

definition lower_char :: "char \<Rightarrow> char" where
  "lower_char c =
     (case map_of (zip ''ABCDEFGHIJKLMNOPQRSTUVWXYZ'' ''abcdefghijklmnopqrstuvwxyz'') c of
        Some d \<Rightarrow> d
      | None \<Rightarrow> c)"

text \<open>\<open>text.lower()\<close>\<close>

definition lower :: "string \<Rightarrow> string" where
  "lower text = map lower_char text"

text \<open>The class \<open>\w\<close>: letters, digits and the underscore.\<close>

definition is_word :: "char \<Rightarrow> bool" where
  "is_word c \<longleftrightarrow>
     c \<in> set ''abcdefghijklmnopqrstuvwxyzABCDEFGHIJKLMNOPQRSTUVWXYZ0123456789_''"

text \<open>
  The class \<open>\s\<close>, which is also what \<open>str.strip()\<close> removes: tab, line feed, vertical
  tab, form feed, carriage return, the separators 0x1C to 0x1F, and the space.
\<close>

definition is_space :: "char \<Rightarrow> bool" where
  "is_space c \<longleftrightarrow>
     c \<in> set [CHR 0x09, CHR 0x0A, CHR 0x0B, CHR 0x0C, CHR 0x0D,
              CHR 0x1C, CHR 0x1D, CHR 0x1E, CHR 0x1F, CHR '' '']"

text \<open>\<open>text.strip(chars)\<close>, for the set of characters satisfying \<open>P\<close>.\<close>

definition strip_where :: "(char \<Rightarrow> bool) \<Rightarrow> string \<Rightarrow> string" where
  "strip_where P text = rev (dropWhile P (rev (dropWhile P text)))"

text \<open>\<open>text.strip()\<close>\<close>

definition strip :: "string \<Rightarrow> string" where
  "strip text = strip_where is_space text"

text \<open>\<open>text.strip("_")\<close>\<close>

definition strip_underscore :: "string \<Rightarrow> string" where
  "strip_underscore text = strip_where (\<lambda>c. c = CHR ''_'') text"

text \<open>\<open>re.sub(r"[^\w\s]", "", text)\<close>: every character that is neither a word character
  nor whitespace is deleted.\<close>

definition sub_punctuation :: "string \<Rightarrow> string" where
  "sub_punctuation text = filter (\<lambda>c. is_word c \<or> is_space c) text"

text \<open>The class \<open>[\s_]\<close>.\<close>

definition is_sep :: "char \<Rightarrow> bool" where
  "is_sep c \<longleftrightarrow> is_space c \<or> c = CHR ''_''"

text \<open>\<open>re.sub(r"[\s_]+", "_", text)\<close>: every maximal run of whitespace and underscores
  becomes one underscore.\<close>

function sub_runs :: "string \<Rightarrow> string" where
  "sub_runs [] = []"
| "sub_runs (c # cs) =
     (if is_sep c then CHR ''_'' # sub_runs (dropWhile is_sep cs) else c # sub_runs cs)"
  by pat_completeness auto
termination
  by (relation "measure length") (auto simp: length_dropWhile_le less_Suc_eq_le)

text \<open>The source's \<open>slugify\<close>.\<close>

definition slugify :: "string \<Rightarrow> string" where
  "slugify text =
     (let text = strip (lower text);
          text = sub_punctuation text;
          text = sub_runs text
      in strip_underscore text)"

text \<open>
  The slug as the specification words it: lowercase, strip the non-word characters
  (whitespace stays, since its runs are collapsed next), collapse whitespace and
  underscore runs to one underscore, trim leading and trailing underscores.
\<close>

definition slug_spec :: "string \<Rightarrow> string" where
  "slug_spec text = strip_underscore (sub_runs (sub_punctuation (lower text)))"

text \<open>\<open>str(n)\<close> for an integer: decimal digits, with a minus sign when negative.\<close>

definition digit_char :: "nat \<Rightarrow> char" where
  "digit_char d = ''0123456789'' ! d"

fun str_nat :: "nat \<Rightarrow> string" where
  "str_nat n = (if n < 10 then [digit_char n] else str_nat (n div 10) @ [digit_char (n mod 10)])"

declare str_nat.simps [simp del]

definition str_int :: "int \<Rightarrow> string" where
  "str_int i = (if i < 0 then CHR ''-'' # str_nat (nat (- i)) else str_nat (nat i))"

text \<open>\<open>s.zfill(width)\<close>: zeros are inserted on the left up to the width, after a leading
  sign if there is one.\<close>

definition zfill :: "nat \<Rightarrow> string \<Rightarrow> string" where
  "zfill width s =
     (if width \<le> length s then s
      else case s of
             [] \<Rightarrow> replicate width (CHR ''0'')
           | c # cs \<Rightarrow>
               if c = CHR ''+'' \<or> c = CHR ''-''
               then c # replicate (width - length s) (CHR ''0'') @ cs
               else replicate (width - length s) (CHR ''0'') @ s)"

section \<open>Paths\<close>

text \<open>
  A \<open>pathlib\<close> path on a POSIX system: whether it is absolute, and its parts. Parsing
  splits at slashes and drops empty parts and \<open>.\<close> parts. (The special root \<open>//\<close> is
  read as \<open>/\<close>.)
\<close>

datatype path = Path (absolute: bool) (parts: "string list")

fun split_slash :: "string \<Rightarrow> string list" where
  "split_slash [] = [[]]"
| "split_slash (c # cs) =
     (if c = CHR ''/'' then [] # split_slash cs
      else case split_slash cs of
             [] \<Rightarrow> [[c]]
           | p # ps \<Rightarrow> (c # p) # ps)"

definition path_of :: "string \<Rightarrow> path" where
  "path_of s =
     Path (s \<noteq> [] \<and> hd s = CHR ''/'')
          (filter (\<lambda>p. p \<noteq> [] \<and> p \<noteq> ''.'') (split_slash s))"

text \<open>\<open>p / seg\<close>: an absolute segment replaces the path.\<close>

definition joinpath :: "path \<Rightarrow> string \<Rightarrow> path" where
  "joinpath p seg =
     (let q = path_of seg
      in if absolute q then q else Path (absolute p) (parts p @ parts q))"

text \<open>\<open>p.name\<close>\<close>

definition path_name :: "path \<Rightarrow> string" where
  "path_name p = (if parts p = [] then [] else last (parts p))"

fun join_slash :: "string list \<Rightarrow> string" where
  "join_slash [] = []"
| "join_slash [p] = p"
| "join_slash (p # ps) = p @ ''/'' @ join_slash ps"

text \<open>\<open>str(p)\<close>\<close>

definition path_str :: "path \<Rightarrow> string" where
  "path_str p =
     (if absolute p then ''/'' @ join_slash (parts p)
      else if parts p = [] then ''.'' else join_slash (parts p))"

section \<open>Exceptions\<close>

text \<open>
  An error raised by a call is a value: its class and its text \<open>str(exc)\<close>. The classes
  are the ones the source's \<open>except\<close> clauses tell apart; each stands for itself and for
  its subclasses that are not listed (\<open>ConnectionResetError\<close> is a \<open>ConnectionError\<close>,
  \<open>FileNotFoundError\<close> an \<open>OSError\<close>), and \<open>OtherException\<close> for every other subclass
  of \<open>Exception\<close>. \<open>ConnectionError\<close> and \<open>TimeoutError\<close> are subclasses of \<open>OSError\<close>;
  \<open>JSONDecodeError\<close> and \<open>UnicodeDecodeError\<close> are subclasses of \<open>ValueError\<close>, unrelated
  to each other. Exits that are not errors (\<open>KeyboardInterrupt\<close>, \<open>SystemExit\<close>) do not
  derive from \<open>Exception\<close> and are not values of this type.
\<close>

datatype exc_class =
  ConnectionError | TimeoutError | OSError | JSONDecodeError | UnicodeDecodeError
  | OtherException

record exc =
  exc_cls :: exc_class
  exc_str :: string

definition issubclass :: "exc_class \<Rightarrow> exc_class \<Rightarrow> bool" where
  "issubclass c d \<longleftrightarrow> c = d \<or> (d = OSError \<and> (c = ConnectionError \<or> c = TimeoutError))"

definition isinstance :: "exc \<Rightarrow> exc_class \<Rightarrow> bool" where
  "isinstance e d \<longleftrightarrow> issubclass (exc_cls e) d"

text \<open>\<open>sub in text\<close>\<close>

fun contains :: "string \<Rightarrow> string \<Rightarrow> bool" where
  "contains sub [] \<longleftrightarrow> sub = []"
| "contains sub (c # cs) \<longleftrightarrow> prefix sub (c # cs) \<or> contains sub cs"

definition BLOCK_SIGNALS :: "string list" where
  "BLOCK_SIGNALS =
     [''403'', ''429'', ''forbidden'', ''too many requests'', ''rate limit'', ''rate-limit'']"

text \<open>The source's \<open>_is_blocked\<close>.\<close>

definition is_blocked :: "exc \<Rightarrow> bool" where
  "is_blocked e \<longleftrightarrow> list_ex (\<lambda>sig. contains sig (lower (exc_str e))) BLOCK_SIGNALS"

section \<open>Configuration\<close>

definition ASSETS_DIR :: string where "ASSETS_DIR = ''assets''"
definition IMAGES_PER_ENGINE :: nat where "IMAGES_PER_ENGINE = 3"
definition INTER_ENGINE_DELAY :: nat where "INTER_ENGINE_DELAY = 3"
definition JITTER_MIN :: real where "JITTER_MIN = 2.0"
definition JITTER_MAX :: real where "JITTER_MAX = 5.0"

section \<open>Manifest, checkpoint, effects\<close>

text \<open>An era of the manifest: \<open>era_index\<close> is an integer or a string.\<close>

datatype era_index = IntIndex int | StrIndex string

record era =
  era_index :: era_index
  title :: string
  icrawler_queries :: "string list"

text \<open>
  A Python dictionary with string keys is an association list in insertion order:
  \<open>map_of\<close> looks a key up, \<open>AList.update\<close> stores a value (in place for a key that is
  there, at the end for a new one). The checkpoint binds era keys to lists of queries.
\<close>

type_synonym 'v dict = "(string \<times> 'v) list"
type_synonym checkpoint = "string list dict"

text \<open>
  What opening a JSON file and \<open>json.load\<close> give: the file is absent
  (\<open>path.exists()\<close> is false), or \<open>open\<close> or \<open>json.load\<close> raises, or the parsed value is
  returned.
\<close>

datatype 'a file_load = Absent | LoadRaises exc | LoadReturns 'a

text \<open>A parsed checkpoint file: a dictionary, or any other JSON value.\<close>

datatype 'v json = JsonDict "'v dict" | JsonOther

text \<open>A parsed manifest: a bare list of eras, or an object that may have an \<open>eras\<close> key.\<close>

datatype raw = RawList "era list" | RawDict "era list option"

datatype level = INFO | WARNING | ERROR

datatype engine = Bing | Baidu

text \<open>The log records of the source, one constructor for each call of the logger.\<close>

datatype msg =
    CheckpointUnexpectedFormat
  | CheckpointUnreadable exc
  | CouldNotSaveCheckpoint string
  | EngineOk string string
  | BlockedSkippingQuery string string exc
  | NetworkTimeoutError string string exc
  | BlockedSkippingEra string string exc
  | UnexpectedError string string exc
  | EraSkip string nat
  | EraStart string nat nat
  | SaveDir string
  | QuerySkip nat nat string
  | QueryStart nat nat string
  | HardBlock string string
  | SleepingEngineSwitch nat
  | CheckpointSaved string
  | JitterBeforeNext real
  | EraComplete string
  | ManifestNotFound
  | NoErasFound
  | Starting nat
  | OutputRoot
  | StatusLog
  | CheckpointPath
  | Resuming nat nat
  | FreshRun
  | AllErasProcessed

text \<open>
  The effects of a run, in order: log records, directory creation, calls of an external
  crawl engine (engine, query, directory, file index offset), the two sleeps (the
  fixed engine-switch delay; the jitter, with the loop counter \<open>i\<close> of the query it
  follows), and writes of the checkpoint file (what was written, and the text of the
  \<open>OSError\<close> if the write failed).
\<close>

datatype event =
    Logged level msg
  | Mkdir string
  | EngineCall engine string string nat
  | EngineSwitchSleep real
  | JitterSleep nat real
  | WriteCheckpoint checkpoint "string option"

record state =
  checkpoint :: checkpoint
  trace :: "event list"
  images :: "string \<Rightarrow> nat"
  engine_calls :: nat
  saves :: nat
  draws :: nat

text \<open>The result of calling an engine adapter: it returns, or raises an error.\<close>

datatype call_result = Returns | Raises exc

text \<open>
  The world outside the program: the two input files; for the \<open>k\<close>-th engine call of the
  run, its result and the number of image files it wrote; for the \<open>k\<close>-th checkpoint write,
  the text of the \<open>OSError\<close> it raises, if any; for the \<open>k\<close>-th draw, the value of
  \<open>random.random()\<close>.
\<close>

record world =
  manifest_file :: "raw file_load"
  checkpoint_file :: "string list json file_load"
  engine_outcome :: "nat \<Rightarrow> call_result \<times> nat"
  save_outcome :: "nat \<Rightarrow> string option"
  random_outcome :: "nat \<Rightarrow> real"

definition logger :: "level \<Rightarrow> msg \<Rightarrow> state \<Rightarrow> state" where
  "logger lv m s = s\<lparr>trace := trace s @ [Logged lv m]\<rparr>"

section \<open>Utility helpers\<close>

text \<open>The source's \<open>build_era_folder\<close>: the folder path, and the state after \<open>mkdir\<close>.\<close>

definition build_era_folder :: "era \<Rightarrow> path \<Rightarrow> state \<Rightarrow> path \<times> state" where
  "build_era_folder e base s =
     (let raw_idx = era_index e;
          idx_str = (case raw_idx of
                       IntIndex n \<Rightarrow> zfill 2 (str_int n)
                     | StrIndex t \<Rightarrow> t);
          folder = joinpath base (idx_str @ ''_'' @ slugify (title e))
      in (folder, s\<lparr>trace := trace s @ [Mkdir (path_str folder)]\<rparr>))"

text \<open>The source's \<open>count_images\<close>: the number of image files in the directory.\<close>

definition count_images :: "state \<Rightarrow> string \<Rightarrow> nat" where
  "count_images s directory = images s directory"

section \<open>Checkpoint\<close>

text \<open>
  The source's \<open>load_checkpoint\<close>. Only \<open>JSONDecodeError\<close> and \<open>OSError\<close> are caught;
  any other error leaves the function (\<open>Inl\<close>).
\<close>

definition load_checkpoint :: "'v json file_load \<Rightarrow> state \<Rightarrow> exc + 'v dict \<times> state" where
  "load_checkpoint f s =
     (case f of
        Absent \<Rightarrow> Inr ([], s)
      | LoadReturns (JsonDict data) \<Rightarrow> Inr (data, s)
      | LoadReturns JsonOther \<Rightarrow> Inr ([], logger WARNING CheckpointUnexpectedFormat s)
      | LoadRaises e \<Rightarrow>
          if isinstance e JSONDecodeError \<or> isinstance e OSError
          then Inr ([], logger WARNING (CheckpointUnreadable e) s)
          else Inl e)"

text \<open>The source's \<open>save_checkpoint\<close>: an \<open>OSError\<close> of the write or the rename is
  logged.\<close>

definition save_checkpoint :: "world \<Rightarrow> state \<Rightarrow> state" where
  "save_checkpoint w s =
     (let r = save_outcome w (saves s);
          s1 = s\<lparr>trace := trace s @ [WriteCheckpoint (checkpoint s) r], saves := Suc (saves s)\<rparr>
      in case r of
           None \<Rightarrow> s1
         | Some e \<Rightarrow> logger ERROR (CouldNotSaveCheckpoint e) s1)"

text \<open>\<open>checkpoint.get(era_key, [])\<close>\<close>

definition completed_of :: "checkpoint \<Rightarrow> string \<Rightarrow> string list" where
  "completed_of cp era_key = (case map_of cp era_key of None \<Rightarrow> [] | Some l \<Rightarrow> l)"

definition is_done :: "checkpoint \<Rightarrow> string \<Rightarrow> string \<Rightarrow> bool" where
  "is_done cp era_key query \<longleftrightarrow> query \<in> set (completed_of cp era_key)"

text \<open>The source's \<open>mark_done\<close>: \<open>setdefault\<close>, the guarded \<open>append\<close>, then the save.\<close>

definition mark_done :: "world \<Rightarrow> string \<Rightarrow> string \<Rightarrow> state \<Rightarrow> state" where
  "mark_done w era_key query s =
     (let completed = completed_of (checkpoint s) era_key;
          completed = (if query \<in> set completed then completed else completed @ [query])
      in save_checkpoint w (s\<lparr>checkpoint := AList.update era_key completed (checkpoint s)\<rparr>))"

section \<open>Engine runners\<close>

text \<open>
  The adapters \<open>crawl_bing\<close> and \<open>crawl_baidu\<close> call the external library, with
  \<open>max_num = IMAGES_PER_ENGINE\<close>: the call is recorded, the world decides how it ends and
  how many image files it leaves in the directory.
\<close>

definition crawl :: "world \<Rightarrow> engine \<Rightarrow> string \<Rightarrow> string \<Rightarrow> nat \<Rightarrow> state \<Rightarrow> call_result \<times> state" where
  "crawl w eng query save_dir file_idx_offset s =
     (case engine_outcome w (engine_calls s) of
        (r, n) \<Rightarrow>
          (r, s\<lparr>trace := trace s @ [EngineCall eng query save_dir file_idx_offset],
                images := (images s)(save_dir := images s save_dir + min IMAGES_PER_ENGINE n),
                engine_calls := Suc (engine_calls s)\<rparr>))"

definition crawl_bing :: "world \<Rightarrow> string \<Rightarrow> string \<Rightarrow> nat \<Rightarrow> state \<Rightarrow> call_result \<times> state" where
  "crawl_bing w = crawl w Bing"

definition crawl_baidu :: "world \<Rightarrow> string \<Rightarrow> string \<Rightarrow> nat \<Rightarrow> state \<Rightarrow> call_result \<times> state" where
  "crawl_baidu w = crawl w Baidu"

section \<open>Orchestration\<close>

text \<open>The return tokens of \<open>run_engine\<close>.\<close>

datatype disposition = OK | SKIP_QUERY | SKIP_ERA

text \<open>The source's \<open>run_engine\<close>: the \<open>try\<close> block and its two \<open>except\<close> clauses, in
  order.\<close>

definition run_engine ::
  "string \<Rightarrow> (string \<Rightarrow> string \<Rightarrow> nat \<Rightarrow> state \<Rightarrow> call_result \<times> state) \<Rightarrow>
   string \<Rightarrow> string \<Rightarrow> nat \<Rightarrow> state \<Rightarrow> disposition \<times> state" where
  "run_engine engine_name fn query save_dir offset s =
     (case fn query save_dir offset s of
        (Returns, s1) \<Rightarrow> (OK, logger INFO (EngineOk engine_name query) s1)
      | (Raises e, s1) \<Rightarrow>
          if isinstance e ConnectionError \<or> isinstance e TimeoutError then
            (SKIP_QUERY,
             if is_blocked e then logger WARNING (BlockedSkippingQuery engine_name query e) s1
             else logger ERROR (NetworkTimeoutError engine_name query e) s1)
          else if is_blocked e then
            (SKIP_ERA, logger WARNING (BlockedSkippingEra engine_name query e) s1)
          else
            (SKIP_QUERY, logger ERROR (UnexpectedError engine_name query e) s1))"

text \<open>\<open>random.uniform(a, b)\<close> is \<open>a + (b - a) * random.random()\<close>.\<close>

definition uniform :: "real \<Rightarrow> real \<Rightarrow> real \<Rightarrow> real" where
  "uniform a b r = a + (b - a) * r"

text \<open>How an iteration of the query loop ends: the loop goes on, or \<open>process_era\<close>
  returns.\<close>

datatype control = Continue | Return

text \<open>
  The body of the \<open>for\<close> loop of \<open>process_era\<close>, for the query \<open>query\<close> with loop counter
  \<open>i\<close> (counted from 1).
\<close>

definition query_body ::
  "world \<Rightarrow> string \<Rightarrow> nat \<Rightarrow> string \<Rightarrow> string \<Rightarrow> nat \<Rightarrow> string \<Rightarrow> state \<Rightarrow> control \<times> state" where
  "query_body w ttl total' save_dir era_key i query s =
     (if is_done (checkpoint s) era_key query then
        (Continue, logger INFO (QuerySkip i total' query) s)
      else
        let s1 = logger INFO (QueryStart i total' query) s;
            offset = count_images s1 save_dir
        in case run_engine ''Bing'' (crawl_bing w) query save_dir offset s1 of
             (bing_result, s2) \<Rightarrow>
               if bing_result = SKIP_ERA then
                 (Return, logger WARNING (HardBlock ''Bing'' ttl) s2)
               else
                 let s3 = logger INFO (SleepingEngineSwitch INTER_ENGINE_DELAY) s2;
                     s4 = s3\<lparr>trace := trace s3 @ [EngineSwitchSleep (real INTER_ENGINE_DELAY)]\<rparr>;
                     offset = count_images s4 save_dir
                 in case run_engine ''Baidu'' (crawl_baidu w) query save_dir offset s4 of
                      (baidu_result, s5) \<Rightarrow>
                        if baidu_result = SKIP_ERA then
                          (Return, logger WARNING (HardBlock ''Baidu'' ttl) s5)
                        else
                          let s6 = (if bing_result = OK \<or> baidu_result = OK
                                    then logger INFO (CheckpointSaved query)
                                           (mark_done w era_key query s5)
                                    else s5);
                              s7 = (if i < total' then
                                      let jitter = uniform JITTER_MIN JITTER_MAX
                                                     (random_outcome w (draws s6));
                                          s' = logger INFO (JitterBeforeNext jitter) s6
                                      in s'\<lparr>trace := trace s' @ [JitterSleep i jitter],
                                            draws := Suc (draws s')\<rparr>
                                    else s6)
                          in (Continue, s7))"

text \<open>The \<open>for\<close> loop over \<open>enumerate(queries, start=1)\<close>, from counter \<open>i\<close> on.\<close>

fun query_loop ::
  "world \<Rightarrow> string \<Rightarrow> nat \<Rightarrow> string \<Rightarrow> string \<Rightarrow> nat \<Rightarrow> string list \<Rightarrow> state \<Rightarrow> control \<times> state" where
  "query_loop w ttl total' save_dir era_key i [] s = (Continue, s)"
| "query_loop w ttl total' save_dir era_key i (query # rest) s =
     (case query_body w ttl total' save_dir era_key i query s of
        (Return, s') \<Rightarrow> (Return, s')
      | (Continue, s') \<Rightarrow> query_loop w ttl total' save_dir era_key (Suc i) rest s')"

text \<open>The source's \<open>process_era\<close>. (The manifest gives every era its title and its
  queries, so the defaults of \<open>era.get\<close> are not used.)\<close>

definition process_era :: "world \<Rightarrow> era \<Rightarrow> path \<Rightarrow> state \<Rightarrow> state" where
  "process_era w e base_dir s =
     (let ttl = title e;
          queries = icrawler_queries e;
          total' = length queries
      in case build_era_folder e base_dir s of
           (folder, s1) \<Rightarrow>
             let save_dir = path_str folder;
                 era_key = path_name folder;
                 already_done = length (filter (is_done (checkpoint s1) era_key) queries)
             in if already_done = total' then logger INFO (EraSkip ttl total') s1
                else
                  let s2 = logger INFO (EraStart ttl total' already_done) s1;
                      s3 = logger INFO (SaveDir save_dir) s2
                  in case query_loop w ttl total' save_dir era_key 1 queries s3 of
                       (Return, s4) \<Rightarrow> s4
                     | (Continue, s4) \<Rightarrow> logger INFO (EraComplete ttl) s4)"

section \<open>Entry point\<close>





section \<open>Observations on a run\<close>

text \<open>The engine calls in a trace, in order: which engine, for which query.\<close>

fun call_of :: "event \<Rightarrow> (engine \<times> string) option" where
  "call_of (EngineCall eng query save_dir offset) = Some (eng, query)"
| "call_of _ = None"

definition calls_in :: "event list \<Rightarrow> (engine \<times> string) list" where
  "calls_in tr = List.map_filter call_of tr"

text \<open>The jitter sleeps in a trace, in order: the loop counter and the duration.\<close>

fun jitter_of :: "event \<Rightarrow> (nat \<times> real) option" where
  "jitter_of (JitterSleep i d) = Some (i, d)"
| "jitter_of _ = None"

definition jitters_in :: "event list \<Rightarrow> (nat \<times> real) list" where
  "jitters_in tr = List.map_filter jitter_of tr"

text \<open>
  The two engine invocations of the loop body for a query that is not skipped, as the
  body makes them from state \<open>s\<close>: Engine A (Bing) after the log record of the query,
  Engine B (Baidu) after Engine A's invocation and the engine-switch sleep. Each is the
  disposition with the state after the call.
\<close>

definition bing_call :: "world \<Rightarrow> string \<Rightarrow> nat \<Rightarrow> nat \<Rightarrow> string \<Rightarrow> state \<Rightarrow> disposition \<times> state" where
  "bing_call w save_dir i total' query s =
     (let s1 = logger INFO (QueryStart i total' query) s
      in run_engine ''Bing'' (crawl_bing w) query save_dir (count_images s1 save_dir) s1)"

definition baidu_call :: "world \<Rightarrow> string \<Rightarrow> nat \<Rightarrow> nat \<Rightarrow> string \<Rightarrow> state \<Rightarrow> disposition \<times> state" where
  "baidu_call w save_dir i total' query s =
     (let s2 = snd (bing_call w save_dir i total' query s);
          s3 = logger INFO (SleepingEngineSwitch INTER_ENGINE_DELAY) s2;
          s4 = s3\<lparr>trace := trace s3 @ [EngineSwitchSleep (real INTER_ENGINE_DELAY)]\<rparr>
      in run_engine ''Baidu'' (crawl_baidu w) query save_dir (count_images s4 save_dir) s4)"

text \<open>The state in which \<open>process_era\<close> enters its loop: after \<open>build_era_folder\<close> and
  the two log records of the era.\<close>

definition loop_entry :: "era \<Rightarrow> path \<Rightarrow> state \<Rightarrow> state" where
  "loop_entry e base_dir s =
     (case build_era_folder e base_dir s of
        (folder, s1) \<Rightarrow>
          logger INFO (SaveDir (path_str folder))
            (logger INFO (EraStart (title e) (length (icrawler_queries e))
               (length (filter (is_done (checkpoint s1) (path_name folder)) (icrawler_queries e)))) s1))"

text \<open>Trimming at the end only: a notion of the proofs about \<open>strip\<close>.\<close>

definition trim_end :: "(char \<Rightarrow> bool) \<Rightarrow> string \<Rightarrow> string" where
  "trim_end P x = rev (dropWhile P (rev x))"

section \<open>Example inputs\<close>

text \<open>The first era of the project's manifest, with two of its queries.\<close>

definition era_egypt :: era where
  "era_egypt =
     \<lparr>era_index = IntIndex 1, title = ''Ancient Egypt and Mesopotamia'',
      icrawler_queries = [''egyptian shendyt kilt'', ''sumerian kaunakes skirt'']\<rparr>"

text \<open>A fresh process: nothing logged, an empty checkpoint in memory, no images on
  disk.\<close>

definition s_init :: state where
  "s_init = \<lparr>checkpoint = [], trace = [], images = (\<lambda>d. 0), engine_calls = 0, saves = 0,
             draws = 0\<rparr>"

text \<open>A world in which every engine call returns with three images, every checkpoint
  write succeeds and every random draw is one half.\<close>

definition w_calm :: world where
  "w_calm =
     \<lparr>manifest_file = LoadReturns (RawList [era_egypt]), checkpoint_file = Absent,
      engine_outcome = (\<lambda>k. (Returns, 3)), save_outcome = (\<lambda>k. None),
      random_outcome = (\<lambda>k. 1 / 2)\<rparr>"

text \<open>Three errors an engine may raise, and the world in which every engine call
  raises a given one.\<close>

definition e_conn_429 :: exc where
  "e_conn_429 = \<lparr>exc_cls = ConnectionError, exc_str = ''HTTP 429 Too Many Requests''\<rparr>"

definition e_http_403 :: exc where
  "e_http_403 = \<lparr>exc_cls = OtherException, exc_str = ''Response 403 Forbidden''\<rparr>"

definition e_value :: exc where
  "e_value = \<lparr>exc_cls = OtherException, exc_str = ''no results parsed''\<rparr>"

definition w_raising :: "exc \<Rightarrow> world" where
  "w_raising e = w_calm\<lparr>engine_outcome := (\<lambda>k. (Raises e, 0))\<rparr>"

text \<open>What reading a checkpoint file that is not valid UTF-8 raises.\<close>

definition e_undecodable :: exc where
  "e_undecodable =
     \<lparr>exc_cls = UnicodeDecodeError,
      exc_str = ''utf-8 codec cannot decode byte 0xff in position 0: invalid start byte''\<rparr>"

text \<open>The checkpoint in which both queries of the example era are done.\<close>

definition s_done :: state where
  "s_done = s_init\<lparr>checkpoint :=
     [(''01_ancient_egypt_and_mesopotamia'', [''egyptian shendyt kilt'', ''sumerian kaunakes skirt''])]\<rparr>"

text \<open>A world in which the second engine call of the run (Baidu's first) is blocked.\<close>

definition w_baidu_blocked :: world where
  "w_baidu_blocked =
     w_calm\<lparr>engine_outcome := (\<lambda>k. if k = 1 then (Raises e_http_403, 0) else (Returns, 3))\<rparr>"



section \<open>The checkpoint store\<close>

lemma checkpoint_logger [simp]: "checkpoint (logger lv m s) = checkpoint s"
  by (simp add: logger_def)

lemma checkpoint_save_checkpoint [simp]: "checkpoint (save_checkpoint w s) = checkpoint s"
  by (simp add: save_checkpoint_def Let_def split: option.splits)

lemma checkpoint_mark_done:
  "checkpoint (mark_done w k q s) =
     AList.update k
       (if q \<in> set (completed_of (checkpoint s) k) then completed_of (checkpoint s) k
        else completed_of (checkpoint s) k @ [q])
       (checkpoint s)"
  by (simp add: mark_done_def Let_def)

lemma completed_of_update_same [simp]: "completed_of (AList.update k v cp) k = v"
  by (simp add: completed_of_def update_conv')

lemma completed_of_update_other:
  "k' \<noteq> k \<Longrightarrow> completed_of (AList.update k v cp) k' = completed_of cp k'"
  by (simp add: completed_of_def update_conv')

lemma update_twice: "AList.update k v (AList.update k v cp) = AList.update k v cp"
  by (simp add: update_triv update_conv')

lemma filter_update_other:
  "filter (\<lambda>p. fst p \<noteq> k) (AList.update k v al) = filter (\<lambda>p. fst p \<noteq> k) al"
  by (induction al) auto

text \<open>
  Claim C4. After \<open>mark_done\<close> the query is done; a second \<open>mark_done\<close> with the same
  era key and query (whatever the outcome of its save) leaves the checkpoint as it is;
  and the first one inserts the query only when it is not yet there, so a query that
  was absent occurs exactly once afterwards.
\<close>

theorem mark_done_then_is_done:
  "is_done (checkpoint (mark_done w k q s)) k q \<and>
   checkpoint (mark_done w' k q (mark_done w k q s)) = checkpoint (mark_done w k q s) \<and>
   count_list (completed_of (checkpoint (mark_done w k q s)) k) q =
     (if is_done (checkpoint s) k q then count_list (completed_of (checkpoint s) k) q else 1)"
  by (simp add: checkpoint_mark_done is_done_def update_twice)

theorem mark_done_then_is_done_witness:
  "is_done (checkpoint (mark_done w_calm ''01_a'' ''kilt'' s_init)) ''01_a'' ''kilt'' \<and>
   checkpoint (mark_done w_calm ''01_a'' ''kilt'' (mark_done w_calm ''01_a'' ''kilt'' s_init)) =
     [(''01_a'', [''kilt''])] \<and>
   count_list (completed_of (checkpoint (mark_done w_calm ''01_a'' ''kilt'' s_init)) ''01_a'')
     ''kilt'' = 1"
  using mark_done_then_is_done [of w_calm "''01_a''" "''kilt''" s_init w_calm]
  by (simp add: checkpoint_mark_done s_init_def completed_of_def is_done_def)

text \<open>
  Claim C10. \<open>mark_done\<close> changes at most the entry of its era key: every other key is
  bound to the list it was bound to, the entries of the other keys stand as they were
  and in the same order, and the list of the era key is the old one (empty when the
  key was new), with the query appended at its end when it was not in it.
\<close>

theorem mark_done_frame:
  "(\<forall>k'. k' \<noteq> k \<longrightarrow> map_of (checkpoint (mark_done w k q s)) k' = map_of (checkpoint s) k') \<and>
   filter (\<lambda>p. fst p \<noteq> k) (checkpoint (mark_done w k q s)) =
     filter (\<lambda>p. fst p \<noteq> k) (checkpoint s) \<and>
   map_of (checkpoint (mark_done w k q s)) k =
     Some (if q \<in> set (completed_of (checkpoint s) k) then completed_of (checkpoint s) k
           else completed_of (checkpoint s) k @ [q])"
  by (simp add: checkpoint_mark_done update_conv' filter_update_other)

theorem mark_done_frame_witness:
  "map_of (checkpoint (mark_done w_calm ''01_a'' ''tunic''
             (s_init\<lparr>checkpoint := [(''01_a'', [''kilt'']), (''02_b'', [''toga''])]\<rparr>))) ''02_b'' =
     Some [''toga''] \<and>
   map_of (checkpoint (mark_done w_calm ''01_a'' ''tunic''
             (s_init\<lparr>checkpoint := [(''01_a'', [''kilt'']), (''02_b'', [''toga''])]\<rparr>))) ''01_a'' =
     Some [''kilt'', ''tunic'']"
  using mark_done_frame [of "''01_a''" w_calm "''tunic''"
      "s_init\<lparr>checkpoint := [(''01_a'', [''kilt'']), (''02_b'', [''toga''])]\<rparr>"]
  by (simp add: completed_of_def)

text \<open>What \<open>load_checkpoint\<close> handles: an absent file, a parsed dictionary, any other
  parsed value, and an error that is a \<open>JSONDecodeError\<close> or an \<open>OSError\<close>.\<close>

lemma load_checkpoint_handled:
  "load_checkpoint Absent s = Inr ([], s) \<and>
   load_checkpoint (LoadReturns (JsonDict d)) s = Inr (d, s) \<and>
   load_checkpoint (LoadReturns JsonOther) s = Inr ([], logger WARNING CheckpointUnexpectedFormat s) \<and>
   (isinstance e JSONDecodeError \<or> isinstance e OSError \<longrightarrow>
      load_checkpoint (LoadRaises e) s = Inr ([], logger WARNING (CheckpointUnreadable e) s))"
  by (simp add: load_checkpoint_def)

text \<open>
  Claim C5. \<open>load_checkpoint\<close> does raise: when the checkpoint file is not valid UTF-8,
  reading it raises a \<open>UnicodeDecodeError\<close>, which is neither a \<open>JSONDecodeError\<close> nor an
  \<open>OSError\<close>, and the error leaves the function.
\<close>

theorem load_checkpoint_undecodable_raises:
  "load_checkpoint (LoadRaises e_undecodable) s_init = Inl e_undecodable"
  by (simp add: load_checkpoint_def isinstance_def issubclass_def e_undecodable_def)

section \<open>The engine runner\<close>

lemma contains_iff: "contains sub t \<longleftrightarrow> (\<exists>pre post. t = pre @ sub @ post)"
proof (induction t)
  case Nil
  then show ?case by auto
next
  case (Cons c cs)
  have "(\<exists>pre post. c # cs = pre @ sub @ post) \<longleftrightarrow>
        (\<exists>post. c # cs = sub @ post) \<or> (\<exists>pre post. cs = pre @ sub @ post)"
  proof
    assume "\<exists>pre post. c # cs = pre @ sub @ post"
    then obtain pre post where eq: "c # cs = pre @ sub @ post" by blast
    show "(\<exists>post. c # cs = sub @ post) \<or> (\<exists>pre post. cs = pre @ sub @ post)"
    proof (cases pre)
      case Nil
      with eq show ?thesis by auto
    next
      case (Cons a pre')
      with eq show ?thesis by auto
    qed
  next
    assume "(\<exists>post. c # cs = sub @ post) \<or> (\<exists>pre post. cs = pre @ sub @ post)"
    then show "\<exists>pre post. c # cs = pre @ sub @ post"
    proof
      assume "\<exists>post. c # cs = sub @ post"
      then obtain post where "c # cs = [] @ sub @ post" by auto
      then show ?thesis by blast
    next
      assume "\<exists>pre post. cs = pre @ sub @ post"
      then obtain pre post where "c # cs = (c # pre) @ sub @ post" by auto
      then show ?thesis by blast
    qed
  qed
  with Cons show ?case by (simp add: prefix_def)
qed

lemma is_blocked_iff:
  "is_blocked e \<longleftrightarrow>
     (\<exists>sig \<in> set [''403'', ''429'', ''forbidden'', ''too many requests'', ''rate limit'',
                   ''rate-limit''].
        \<exists>pre post. lower (exc_str e) = pre @ sig @ post)"
  unfolding is_blocked_def BLOCK_SIGNALS_def list_ex_iff contains_iff ..

lemma is_blocked_e_conn_429: "is_blocked e_conn_429"
  by (simp add: is_blocked_def e_conn_429_def BLOCK_SIGNALS_def lower_def lower_char_def)

lemma is_blocked_e_http_403: "is_blocked e_http_403"
  by (simp add: is_blocked_def e_http_403_def BLOCK_SIGNALS_def lower_def lower_char_def)

lemma not_is_blocked_e_value: "\<not> is_blocked e_value"
  by (simp add: is_blocked_def e_value_def BLOCK_SIGNALS_def lower_def lower_char_def)

text \<open>
  Claim C1. Whatever the engine function \<open>fn\<close> is: when the call returns, \<open>run_engine\<close>
  yields \<open>OK\<close>; when it raises a \<open>ConnectionError\<close> or a \<open>TimeoutError\<close>, \<open>SKIP_QUERY\<close>,
  blocked or not; when it raises an error outside that class, \<open>SKIP_ERA\<close> if the error is
  blocked and \<open>SKIP_QUERY\<close> if it is not. An error is blocked when its text, lowercased,
  contains one of the six block signals.
\<close>

theorem run_engine_classification:
  "(fst (fn query save_dir offset s) = Returns \<longrightarrow>
      fst (run_engine engine_name fn query save_dir offset s) = OK) \<and>
   (fst (fn query save_dir offset s) = Raises e \<and>
    (isinstance e ConnectionError \<or> isinstance e TimeoutError) \<longrightarrow>
      fst (run_engine engine_name fn query save_dir offset s) = SKIP_QUERY) \<and>
   (fst (fn query save_dir offset s) = Raises e \<and>
    \<not> isinstance e ConnectionError \<and> \<not> isinstance e TimeoutError \<and> is_blocked e \<longrightarrow>
      fst (run_engine engine_name fn query save_dir offset s) = SKIP_ERA) \<and>
   (fst (fn query save_dir offset s) = Raises e \<and>
    \<not> isinstance e ConnectionError \<and> \<not> isinstance e TimeoutError \<and> \<not> is_blocked e \<longrightarrow>
      fst (run_engine engine_name fn query save_dir offset s) = SKIP_QUERY) \<and>
   (is_blocked e \<longleftrightarrow>
      (\<exists>sig \<in> set [''403'', ''429'', ''forbidden'', ''too many requests'', ''rate limit'',
                    ''rate-limit''].
         \<exists>pre post. lower (exc_str e) = pre @ sig @ post))"
  using is_blocked_iff [of e]
  by (auto simp: run_engine_def split: prod.splits call_result.splits)

theorem run_engine_classification_witness:
  "fst (run_engine ''Bing'' (crawl_bing w_calm) ''kilt'' ''assets/01_a'' 0 s_init) = OK \<and>
   is_blocked e_conn_429 \<and>
   fst (run_engine ''Bing'' (crawl_bing (w_raising e_conn_429)) ''kilt'' ''assets/01_a'' 0 s_init)
     = SKIP_QUERY \<and>
   is_blocked e_http_403 \<and>
   fst (run_engine ''Bing'' (crawl_bing (w_raising e_http_403)) ''kilt'' ''assets/01_a'' 0 s_init)
     = SKIP_ERA \<and>
   \<not> is_blocked e_value \<and>
   fst (run_engine ''Bing'' (crawl_bing (w_raising e_value)) ''kilt'' ''assets/01_a'' 0 s_init)
     = SKIP_QUERY"
  using
    run_engine_classification
      [of "crawl_bing w_calm" "''kilt''" "''assets/01_a''" 0 s_init "''Bing''" e_value]
    run_engine_classification
      [of "crawl_bing (w_raising e_conn_429)" "''kilt''" "''assets/01_a''" 0 s_init "''Bing''"
        e_conn_429]
    run_engine_classification
      [of "crawl_bing (w_raising e_http_403)" "''kilt''" "''assets/01_a''" 0 s_init "''Bing''"
        e_http_403]
    run_engine_classification
      [of "crawl_bing (w_raising e_value)" "''kilt''" "''assets/01_a''" 0 s_init "''Bing''"
        e_value]
    is_blocked_e_conn_429 is_blocked_e_http_403 not_is_blocked_e_value
  by (simp add: crawl_bing_def crawl_def w_raising_def w_calm_def isinstance_def issubclass_def
      e_conn_429_def e_http_403_def e_value_def)

section \<open>Slugs and folder names\<close>

lemma dropWhile_append_dep:
  "dropWhile P (r @ z) = (if dropWhile P r = [] then dropWhile P z else dropWhile P r @ z)"
  by (induction r) auto

lemma trim_end_Cons:
  "trim_end P (c # cs) = (if trim_end P cs = [] then (if P c then [] else [c]) else c # trim_end P cs)"
  by (simp add: trim_end_def dropWhile_append_dep)

lemma trim_commute: "trim_end P (dropWhile P x) = dropWhile P (trim_end P x)"
  by (induction x) (auto simp: trim_end_Cons, simp add: trim_end_def)

lemma strip_where_alt: "strip_where P x = dropWhile P (trim_end P x)"
  using trim_commute [of P x] by (simp add: strip_where_def trim_end_def)

lemma dropWhile_all: "\<forall>x\<in>set xs. P x \<Longrightarrow> dropWhile P xs = []"
  by (simp add: dropWhile_eq_Nil_conv)

lemma sub_runs_all_sep: "\<forall>c\<in>set ws. is_sep c \<Longrightarrow> sub_runs ws = (if ws = [] then [] else ''_'')"
  by (cases ws) (auto simp: dropWhile_all)

lemma drop_us_sub_runs_dropWhile:
  "dropWhile (\<lambda>c. c = CHR ''_'') (sub_runs (dropWhile is_sep x)) = dropWhile (\<lambda>c. c = CHR ''_'') (sub_runs x)"
  by (cases x) auto

lemma sub_runs_lead:
  assumes "\<forall>c\<in>set ws. is_sep c"
  shows "dropWhile (\<lambda>c. c = CHR ''_'') (sub_runs (ws @ x)) = dropWhile (\<lambda>c. c = CHR ''_'') (sub_runs x)"
proof (cases ws)
  case Nil
  then show ?thesis by simp
next
  case (Cons a ws')
  with assms have "dropWhile is_sep (ws' @ x) = dropWhile is_sep x"
    by (simp add: dropWhile_append2)
  with Cons assms show ?thesis
    by (simp add: drop_us_sub_runs_dropWhile)
qed

lemma sub_runs_trail:
  "\<forall>c\<in>set ws. is_sep c \<Longrightarrow>
   dropWhile (\<lambda>c. c = CHR ''_'') (rev (sub_runs (y @ ws))) = dropWhile (\<lambda>c. c = CHR ''_'') (rev (sub_runs y))"
proof (induction y arbitrary: ws rule: sub_runs.induct)
  case 1
  then show ?case by (simp add: sub_runs_all_sep)
next
  case (2 c cs)
  show ?case
  proof (cases "is_sep c")
    case True
    obtain ws' where ws': "dropWhile is_sep (cs @ ws) = dropWhile is_sep cs @ ws'" "\<forall>c\<in>set ws'. is_sep c"
    proof (cases "\<forall>x\<in>set cs. is_sep x")
      case True
      with "2.prems" have "dropWhile is_sep (cs @ ws) = dropWhile is_sep cs @ []"
        by (simp add: dropWhile_all dropWhile_append2)
      then show ?thesis using that by force
    next
      case False
      then have "dropWhile is_sep (cs @ ws) = dropWhile is_sep cs @ ws"
        by (auto simp: dropWhile_append1)
      then show ?thesis using that "2.prems" by blast
    qed
    from "2.IH"(1) [OF True ws'(2)] True ws'(1) show ?thesis
      by (simp add: dropWhile_append_dep)
  next
    case False
    then have "c \<noteq> CHR ''_''" by (auto simp: is_sep_def)
    with "2.IH"(2) [OF False "2.prems"] False show ?thesis
      by (simp add: dropWhile_append_dep)
  qed
qed

lemma strip_underscore_sub_runs_pad:
  assumes "\<forall>c\<in>set ws1. is_sep c" "\<forall>c\<in>set ws2. is_sep c"
  shows "strip_underscore (sub_runs (ws1 @ m @ ws2)) = strip_underscore (sub_runs m)"
proof -
  have "strip_underscore (sub_runs (ws1 @ m @ ws2)) = strip_underscore (sub_runs (m @ ws2))"
    using sub_runs_lead [OF assms(1), of "m @ ws2"]
    by (simp add: strip_underscore_def strip_where_def)
  also have "\<dots> = strip_underscore (sub_runs m)"
    using sub_runs_trail [OF assms(2), of m]
    by (simp add: strip_underscore_def strip_where_alt trim_end_def)
  finally show ?thesis .
qed

lemma strip_decompose:
  "t = takeWhile P t @ strip_where P t @ rev (takeWhile P (rev (dropWhile P t)))"
proof -
  have "rev (dropWhile P t) = takeWhile P (rev (dropWhile P t)) @ dropWhile P (rev (dropWhile P t))"
    by simp
  then have "dropWhile P t = rev (dropWhile P (rev (dropWhile P t))) @ rev (takeWhile P (rev (dropWhile P t)))"
    by (metis rev_append rev_rev_ident)
  then show ?thesis
    by (metis strip_where_def takeWhile_dropWhile_id)
qed

lemma filter_all: "\<forall>c\<in>set ws. P c \<Longrightarrow> filter P ws = ws"
  by (induction ws) auto

lemma slugify_eq_slug_spec: "slugify t = slug_spec t"
proof -
  define u where "u = lower t"
  define ws1 where "ws1 = takeWhile is_space u"
  define ws2 where "ws2 = rev (takeWhile is_space (rev (dropWhile is_space u)))"
  have sp1: "\<forall>c\<in>set ws1. is_space c" unfolding ws1_def by (auto dest: set_takeWhileD)
  have sp2: "\<forall>c\<in>set ws2. is_space c" unfolding ws2_def by (auto dest: set_takeWhileD)
  have u: "u = ws1 @ strip u @ ws2"
    unfolding ws1_def ws2_def strip_def by (rule strip_decompose)
  have "sub_punctuation u = sub_punctuation ws1 @ sub_punctuation (strip u) @ sub_punctuation ws2"
    by (subst u) (simp add: sub_punctuation_def)
  also have "\<dots> = ws1 @ sub_punctuation (strip u) @ ws2"
    using sp1 sp2 by (simp add: sub_punctuation_def filter_all)
  finally have "sub_punctuation u = ws1 @ sub_punctuation (strip u) @ ws2" .
  moreover have "\<forall>c\<in>set ws1. is_sep c" "\<forall>c\<in>set ws2. is_sep c"
    using sp1 sp2 by (auto simp: is_sep_def)
  ultimately have "strip_underscore (sub_runs (sub_punctuation u)) =
      strip_underscore (sub_runs (sub_punctuation (strip u)))"
    by (simp add: strip_underscore_sub_runs_pad)
  then show ?thesis
    by (simp add: slugify_def slug_spec_def Let_def u_def)
qed

lemma slug_example: "slugify ''Ancient Egypt and Mesopotamia'' = ''ancient_egypt_and_mesopotamia''"
  by (simp add: slugify_def lower_def lower_char_def strip_def strip_where_def is_space_def
      sub_punctuation_def is_word_def is_sep_def strip_underscore_def)

lemma set_sub_runs: "set (sub_runs x) \<subseteq> insert (CHR ''_'') {c \<in> set x. \<not> is_sep c}"
proof (induction x rule: sub_runs.induct)
  case 1
  then show ?case by simp
next
  case (2 c cs)
  show ?case
  proof (cases "is_sep c")
    case True
    have "set (dropWhile is_sep cs) \<subseteq> set cs" by (auto dest: set_dropWhileD)
    with "2.IH"(1) [OF True] True show ?thesis by auto
  next
    case False
    with "2.IH"(2) [OF False] show ?thesis by auto
  qed
qed

lemma set_strip_where: "set (strip_where P x) \<subseteq> set x"
  by (auto simp: strip_where_def dest!: set_dropWhileD)

lemma slug_spec_word: "c \<in> set (slug_spec t) \<Longrightarrow> is_word c"
proof -
  assume "c \<in> set (slug_spec t)"
  then have "c \<in> set (sub_runs (sub_punctuation (lower t)))"
    using set_strip_where by (auto simp: slug_spec_def strip_underscore_def)
  then have "c = CHR ''_'' \<or> (c \<in> set (sub_punctuation (lower t)) \<and> \<not> is_sep c)"
    using set_sub_runs by fastforce
  then show "is_word c"
    by (auto simp: sub_punctuation_def is_sep_def) (simp add: is_word_def)
qed

lemma slash_not_word: "\<not> is_word (CHR ''/'')"
  by (simp add: is_word_def)

lemma digit_char_digit: "d < 10 \<Longrightarrow> digit_char d \<in> set ''0123456789''"
proof -
  assume "d < 10"
  then have "d \<in> {0, 1, 2, 3, 4, 5, 6, 7, 8, 9}" by auto
  then show ?thesis by (auto simp: digit_char_def)
qed

lemma digit_char_no_slash: "d < 10 \<Longrightarrow> digit_char d \<noteq> CHR ''/''"
  using digit_char_digit [of d] by auto

lemma str_nat_no_slash: "CHR ''/'' \<notin> set (str_nat n)"
proof (induction n rule: str_nat.induct)
  case (1 n)
  show ?case
  proof (cases "n < 10")
    case True
    then show ?thesis using digit_char_no_slash [of n] by (subst str_nat.simps) auto
  next
    case False
    have "n mod 10 < 10" by simp
    with "1.IH" [OF False] False digit_char_no_slash [of "n mod 10"] show ?thesis
      by (subst str_nat.simps) auto
  qed
qed

lemma str_int_no_slash: "CHR ''/'' \<notin> set (str_int i)"
  by (simp add: str_int_def str_nat_no_slash)

lemma set_zfill: "set (zfill n s) \<subseteq> insert (CHR ''0'') (set s)"
  by (auto simp: zfill_def split: list.splits if_splits)

lemma zfill_no_slash: "CHR ''/'' \<notin> set s \<Longrightarrow> CHR ''/'' \<notin> set (zfill n s)"
  using set_zfill [of n s] by auto

lemma split_slash_no_slash: "CHR ''/'' \<notin> set x \<Longrightarrow> split_slash x = [x]"
  by (induction x) auto

lemma path_name_joinpath:
  assumes "CHR ''/'' \<notin> set x" "CHR ''_'' \<in> set x"
  shows "path_name (joinpath base x) = x"
proof -
  from assms(2) have "x \<noteq> []" "x \<noteq> ''.''" by auto
  with assms(1) have "path_of x = Path False [x]"
    by (cases x) (auto simp: path_of_def split_slash_no_slash)
  then show ?thesis by (simp add: joinpath_def path_name_def)
qed

lemma zfill_two_digits:
  "0 \<le> n \<Longrightarrow> n < 100 \<Longrightarrow> zfill 2 (str_int n) = [digit_char (nat n div 10), digit_char (nat n mod 10)]"
proof -
  assume n: "0 \<le> n" "n < 100"
  show ?thesis
  proof (cases "n < 10")
    case True
    with n have "str_int n = [digit_char (nat n)]" "nat n div 10 = 0" "nat n mod 10 = nat n"
      by (auto simp: str_int_def str_nat.simps)
    moreover from True n have "nat n < 10" by simp
    then have "digit_char (nat n) \<in> set ''0123456789''"
      by (rule digit_char_digit)
    ultimately show ?thesis by (auto simp: zfill_def digit_char_def)
  next
    case False
    with n have "nat n div 10 < 10" "\<not> nat n < 10" by auto
    then have "str_nat (nat n) = [digit_char (nat n div 10), digit_char (nat n mod 10)]"
      by (subst str_nat.simps, simp, subst str_nat.simps, simp)
    with n show ?thesis by (simp add: str_int_def zfill_def)
  qed
qed

text \<open>
  Claim C7, as amended. The folder identifier is the name of the folder path. For an
  integer index it is \<open>str(index).zfill(2)\<close>, an underscore and the slug of the title (the
  specification's slug: the source's leading \<open>strip()\<close> changes nothing); for an index from
  0 to 99 the padded index is its two decimal digits. A string index is not padded: when
  it has no slash, the identifier is the string as it is, an underscore and the slug. The
  identifier depends on the index and the title only.
\<close>

theorem era_folder_name:
  "(era_index e = IntIndex n \<longrightarrow>
      path_name (fst (build_era_folder e base s)) = zfill 2 (str_int n) @ ''_'' @ slug_spec (title e)) \<and>
   (era_index e = IntIndex n \<and> 0 \<le> n \<and> n < 100 \<longrightarrow>
      path_name (fst (build_era_folder e base s)) =
        [digit_char (nat n div 10), digit_char (nat n mod 10)] @ ''_'' @ slug_spec (title e)) \<and>
   (era_index e = StrIndex t \<and> CHR ''/'' \<notin> set t \<longrightarrow>
      path_name (fst (build_era_folder e base s)) = t @ ''_'' @ slug_spec (title e))"
proof -
  have slug: "CHR ''/'' \<notin> set (slug_spec (title e))"
    using slug_spec_word slash_not_word by blast
  have a: "era_index e = IntIndex n \<Longrightarrow>
      path_name (fst (build_era_folder e base s)) = zfill 2 (str_int n) @ ''_'' @ slug_spec (title e)"
    using slug zfill_no_slash [OF str_int_no_slash, of 2 n]
    by (simp add: build_era_folder_def Let_def slugify_eq_slug_spec path_name_joinpath)
  have b: "era_index e = StrIndex t \<Longrightarrow> CHR ''/'' \<notin> set t \<Longrightarrow>
      path_name (fst (build_era_folder e base s)) = t @ ''_'' @ slug_spec (title e)"
    using slug
    by (simp add: build_era_folder_def Let_def slugify_eq_slug_spec path_name_joinpath)
  show ?thesis using a b zfill_two_digits [of n] by auto
qed

lemma slug_spec_example: "slug_spec ''Ancient Egypt and Mesopotamia'' = ''ancient_egypt_and_mesopotamia''"
  using slug_example by (simp add: slugify_eq_slug_spec)

lemma str1: "str_int 1 = ''1''"
  by (simp add: str_int_def str_nat.simps digit_char_def)

theorem era_folder_name_witness:
  "path_name (fst (build_era_folder era_egypt (path_of ASSETS_DIR) s_init)) = ''01_ancient_egypt_and_mesopotamia'' \<and>
   path_name (fst (build_era_folder (era_egypt\<lparr>era_index := StrIndex ''01''\<rparr>) (path_of ASSETS_DIR) s_init)) =
      ''01_ancient_egypt_and_mesopotamia''"
  using era_folder_name [of era_egypt 1 "path_of ASSETS_DIR" s_init "''01''"]
    era_folder_name [of "era_egypt\<lparr>era_index := StrIndex ''01''\<rparr>" 1 "path_of ASSETS_DIR" s_init "''01''"]
  by (simp add: era_egypt_def slug_spec_example str1 zfill_def)

text \<open>The claim as stated fails for a string index: the index \<open>"1"\<close> is not padded to
  \<open>"01"\<close>.\<close>

theorem era_folder_string_index_unpadded:
  "path_name (fst (build_era_folder (era_egypt\<lparr>era_index := StrIndex ''1''\<rparr>) (path_of ASSETS_DIR) s_init)) =
      ''1_ancient_egypt_and_mesopotamia'' \<and>
   path_name (fst (build_era_folder (era_egypt\<lparr>era_index := StrIndex ''1''\<rparr>) (path_of ASSETS_DIR) s_init)) \<noteq>
      zfill 2 ''1'' @ ''_'' @ slug_spec ''Ancient Egypt and Mesopotamia''"
  by (simp add: build_era_folder_def era_egypt_def Let_def slug_example joinpath_def path_of_def
      path_name_def zfill_def slug_spec_example ASSETS_DIR_def)

section \<open>The era processor\<close>

subsection \<open>What each step does to the state\<close>

lemma calls_in_simps [simp]:
  "calls_in [] = []"
  "calls_in (tr @ tr') = calls_in tr @ calls_in tr'"
  "calls_in (ev # tr) = (case call_of ev of None \<Rightarrow> calls_in tr | Some c \<Rightarrow> c # calls_in tr)"
  by (auto simp: calls_in_def List.map_filter_def split: option.splits)

lemma jitters_in_simps [simp]:
  "jitters_in [] = []"
  "jitters_in (tr @ tr') = jitters_in tr @ jitters_in tr'"
  "jitters_in (ev # tr) = (case jitter_of ev of None \<Rightarrow> jitters_in tr | Some c \<Rightarrow> c # jitters_in tr)"
  by (auto simp: jitters_in_def List.map_filter_def split: option.splits)

lemma logger_fields [simp]:
  "trace (logger lv m s) = trace s @ [Logged lv m]"
  "images (logger lv m s) = images s"
  "engine_calls (logger lv m s) = engine_calls s"
  "saves (logger lv m s) = saves s"
  "draws (logger lv m s) = draws s"
  by (simp_all add: logger_def)

lemma save_checkpoint_fields [simp]:
  "images (save_checkpoint w s) = images s"
  "engine_calls (save_checkpoint w s) = engine_calls s"
  "saves (save_checkpoint w s) = Suc (saves s)"
  "draws (save_checkpoint w s) = draws s"
  "calls_in (trace (save_checkpoint w s)) = calls_in (trace s)"
  "jitters_in (trace (save_checkpoint w s)) = jitters_in (trace s)"
  by (simp_all add: save_checkpoint_def Let_def split: option.splits)

lemma mark_done_fields [simp]:
  "images (mark_done w k q s) = images s"
  "engine_calls (mark_done w k q s) = engine_calls s"
  "saves (mark_done w k q s) = Suc (saves s)"
  "draws (mark_done w k q s) = draws s"
  "calls_in (trace (mark_done w k q s)) = calls_in (trace s)"
  "jitters_in (trace (mark_done w k q s)) = jitters_in (trace s)"
  by (simp_all add: mark_done_def Let_def)

lemma crawl_fields [simp]:
  "fst (crawl w eng q d off s) = fst (engine_outcome w (engine_calls s))"
  "checkpoint (snd (crawl w eng q d off s)) = checkpoint s"
  "trace (snd (crawl w eng q d off s)) = trace s @ [EngineCall eng q d off]"
  "engine_calls (snd (crawl w eng q d off s)) = Suc (engine_calls s)"
  "saves (snd (crawl w eng q d off s)) = saves s"
  "draws (snd (crawl w eng q d off s)) = draws s"
  by (simp_all add: crawl_def split: prod.splits)

lemma run_engine_fields [simp]:
  "checkpoint (snd (run_engine n (crawl w eng) q d off s)) = checkpoint s"
  "engine_calls (snd (run_engine n (crawl w eng) q d off s)) = Suc (engine_calls s)"
  "saves (snd (run_engine n (crawl w eng) q d off s)) = saves s"
  "draws (snd (run_engine n (crawl w eng) q d off s)) = draws s"
  "calls_in (trace (snd (run_engine n (crawl w eng) q d off s))) = calls_in (trace s) @ [(eng, q)]"
  "jitters_in (trace (snd (run_engine n (crawl w eng) q d off s))) = jitters_in (trace s)"
  by (simp_all add: run_engine_def case_prod_beta split: call_result.splits)

lemma bing_call_fields [simp]:
  "checkpoint (snd (bing_call w d i n q s)) = checkpoint s"
  "engine_calls (snd (bing_call w d i n q s)) = Suc (engine_calls s)"
  "saves (snd (bing_call w d i n q s)) = saves s"
  "draws (snd (bing_call w d i n q s)) = draws s"
  "calls_in (trace (snd (bing_call w d i n q s))) = calls_in (trace s) @ [(Bing, q)]"
  "jitters_in (trace (snd (bing_call w d i n q s))) = jitters_in (trace s)"
  by (simp_all add: bing_call_def crawl_bing_def Let_def)

lemma baidu_call_fields [simp]:
  "checkpoint (snd (baidu_call w d i n q s)) = checkpoint s"
  "engine_calls (snd (baidu_call w d i n q s)) = Suc (Suc (engine_calls s))"
  "saves (snd (baidu_call w d i n q s)) = saves s"
  "draws (snd (baidu_call w d i n q s)) = draws s"
  "calls_in (trace (snd (baidu_call w d i n q s))) = calls_in (trace s) @ [(Bing, q), (Baidu, q)]"
  "jitters_in (trace (snd (baidu_call w d i n q s))) = jitters_in (trace s)"
  by (simp_all add: baidu_call_def crawl_baidu_def Let_def)

text \<open>The loop body in terms of the two engine calls.\<close>

lemma query_body_done:
  "is_done (checkpoint s) key q \<Longrightarrow>
   query_body w ttl n d key i q s = (Continue, logger INFO (QuerySkip i n q) s)"
  by (simp add: query_body_def)

lemma query_body_bing_abort:
  "\<not> is_done (checkpoint s) key q \<Longrightarrow> fst (bing_call w d i n q s) = SKIP_ERA \<Longrightarrow>
   query_body w ttl n d key i q s =
     (Return, logger WARNING (HardBlock ''Bing'' ttl) (snd (bing_call w d i n q s)))"
  by (simp add: query_body_def bing_call_def Let_def case_prod_beta)

lemma query_body_baidu_abort:
  "\<not> is_done (checkpoint s) key q \<Longrightarrow> fst (bing_call w d i n q s) \<noteq> SKIP_ERA \<Longrightarrow>
   fst (baidu_call w d i n q s) = SKIP_ERA \<Longrightarrow>
   query_body w ttl n d key i q s =
     (Return, logger WARNING (HardBlock ''Baidu'' ttl) (snd (baidu_call w d i n q s)))"
  by (simp add: query_body_def bing_call_def baidu_call_def Let_def case_prod_beta)

lemma query_body_processed:
  assumes "\<not> is_done (checkpoint s) key q" "fst (bing_call w d i n q s) \<noteq> SKIP_ERA"
    "fst (baidu_call w d i n q s) \<noteq> SKIP_ERA"
  shows "fst (query_body w ttl n d key i q s) = Continue"
    and "checkpoint (snd (query_body w ttl n d key i q s)) =
          (if fst (bing_call w d i n q s) = OK \<or> fst (baidu_call w d i n q s) = OK
           then checkpoint (mark_done w key q s) else checkpoint s)"
    and "saves (snd (query_body w ttl n d key i q s)) =
          (if fst (bing_call w d i n q s) = OK \<or> fst (baidu_call w d i n q s) = OK
           then Suc (saves s) else saves s)"
    and "calls_in (trace (snd (query_body w ttl n d key i q s))) =
          calls_in (trace s) @ [(Bing, q), (Baidu, q)]"
    and "jitters_in (trace (snd (query_body w ttl n d key i q s))) =
          jitters_in (trace s) @
          (if i < n then [(i, uniform JITTER_MIN JITTER_MAX (random_outcome w (draws s)))] else [])"
  using assms
  by (simp_all add: query_body_def bing_call_def baidu_call_def Let_def case_prod_beta
       crawl_bing_def crawl_baidu_def checkpoint_mark_done)

lemma build_era_folder_fields [simp]:
  "checkpoint (snd (build_era_folder e base s)) = checkpoint s"
  "trace (snd (build_era_folder e base s)) = trace s @ [Mkdir (path_str (fst (build_era_folder e base s)))]"
  "engine_calls (snd (build_era_folder e base s)) = engine_calls s"
  "saves (snd (build_era_folder e base s)) = saves s"
  "draws (snd (build_era_folder e base s)) = draws s"
  by (simp_all add: build_era_folder_def Let_def)

lemma fst_build_era_folder: "fst (build_era_folder e base s) = fst (build_era_folder e base s')"
  by (simp add: build_era_folder_def Let_def)

lemma loop_entry_fields [simp]:
  "checkpoint (loop_entry e base s) = checkpoint s"
  "engine_calls (loop_entry e base s) = engine_calls s"
  "saves (loop_entry e base s) = saves s"
  "draws (loop_entry e base s) = draws s"
  "calls_in (trace (loop_entry e base s)) = calls_in (trace s)"
  "jitters_in (trace (loop_entry e base s)) = jitters_in (trace s)"
  by (simp_all add: loop_entry_def case_prod_beta)

lemma process_era_all_done:
  assumes "\<forall>q\<in>set (icrawler_queries e). is_done (checkpoint s) (path_name (fst (build_era_folder e base s))) q"
  shows "process_era w e base s =
           logger INFO (EraSkip (title e) (length (icrawler_queries e))) (snd (build_era_folder e base s))"
  using assms by (simp add: process_era_def Let_def case_prod_beta)

lemma process_era_loop:
  assumes "q \<in> set (icrawler_queries e)"
    "\<not> is_done (checkpoint s) (path_name (fst (build_era_folder e base s))) q"
  shows "process_era w e base s =
           (case query_loop w (title e) (length (icrawler_queries e))
                   (path_str (fst (build_era_folder e base s)))
                   (path_name (fst (build_era_folder e base s))) 1 (icrawler_queries e)
                   (loop_entry e base s) of
              (Return, s4) \<Rightarrow> s4
            | (Continue, s4) \<Rightarrow> logger INFO (EraComplete (title e)) s4)"
proof -
  have "length (filter (is_done (checkpoint s) (path_name (fst (build_era_folder e base s))))
          (icrawler_queries e)) < length (icrawler_queries e)"
    using assms by (intro length_filter_less) auto
  then show ?thesis
    by (simp add: process_era_def loop_entry_def Let_def case_prod_beta)
qed

lemma query_loop_append:
  "query_loop w ttl n d key i (xs @ ys) s =
     (case query_loop w ttl n d key i xs s of
        (Return, s') \<Rightarrow> (Return, s')
      | (Continue, s') \<Rightarrow> query_loop w ttl n d key (i + length xs) ys s')"
  by (induction xs arbitrary: i s) (auto split: prod.splits control.splits)

text \<open>What an iteration does to the checkpoint.\<close>

lemma query_body_checkpoint:
  "checkpoint (snd (query_body w ttl n d key i q s)) = checkpoint s \<or>
   checkpoint (snd (query_body w ttl n d key i q s)) = checkpoint (mark_done w key q s)"
  by (simp add: query_body_def Let_def case_prod_beta crawl_bing_def crawl_baidu_def
      checkpoint_mark_done)

lemma is_done_mark_done_mono:
  "is_done (checkpoint s) k q' \<Longrightarrow> is_done (checkpoint (mark_done w key q s)) k q'"
  by (cases "k = key") (auto simp: is_done_def checkpoint_mark_done completed_of_update_other)

lemma is_done_mark_done_other:
  "q' \<noteq> q \<Longrightarrow> is_done (checkpoint (mark_done w key q s)) k q' \<longleftrightarrow> is_done (checkpoint s) k q'"
  by (cases "k = key") (auto simp: is_done_def checkpoint_mark_done completed_of_update_other)

lemma query_body_is_done_mono:
  "is_done (checkpoint s) k q' \<Longrightarrow> is_done (checkpoint (snd (query_body w ttl n d key i q s))) k q'"
  using query_body_checkpoint [of w ttl n d key i q s] is_done_mark_done_mono [of s k q' w key q]
  by auto

lemma query_body_is_done_other:
  "q' \<noteq> q \<Longrightarrow>
   is_done (checkpoint (snd (query_body w ttl n d key i q s))) k q' \<longleftrightarrow> is_done (checkpoint s) k q'"
  using query_body_checkpoint [of w ttl n d key i q s] is_done_mark_done_other [of q' q w key s k]
  by auto

lemma query_loop_is_done_mono:
  "is_done (checkpoint s) k q' \<Longrightarrow>
   is_done (checkpoint (snd (query_loop w ttl n d key i qs s))) k q'"
proof (induction qs arbitrary: i s)
  case Nil
  then show ?case by simp
next
  case (Cons q qs)
  have step: "is_done (checkpoint (snd (query_body w ttl n d key i q s))) k q'"
    using Cons.prems by (rule query_body_is_done_mono)
  show ?case
  proof (cases "query_body w ttl n d key i q s")
    case (Pair c s')
    with step have "is_done (checkpoint s') k q'" by simp
    with Pair Cons.IH [of s' "Suc i"] show ?thesis by (cases c) auto
  qed
qed

text \<open>The engine calls of an iteration and of the loop.\<close>

lemma query_body_calls:
  "\<exists>cs. calls_in (trace (snd (query_body w ttl n d key i q s))) = calls_in (trace s) @ cs \<and>
        (is_done (checkpoint s) key q \<or> (Bing, q) \<in> set cs)"
  by (simp add: query_body_def Let_def case_prod_beta crawl_bing_def crawl_baidu_def)

lemma query_loop_calls:
  "\<exists>cs. calls_in (trace (snd (query_loop w ttl n d key i qs s))) = calls_in (trace s) @ cs"
proof (induction qs arbitrary: i s)
  case Nil
  then show ?case by simp
next
  case (Cons q qs)
  obtain c s' where body: "query_body w ttl n d key i q s = (c, s')"
    by (cases "query_body w ttl n d key i q s")
  obtain cs where cs: "calls_in (trace s') = calls_in (trace s) @ cs"
    using query_body_calls [of w ttl n d key i q s] body by auto
  show ?case
  proof (cases c)
    case Return
    with body cs show ?thesis by auto
  next
    case Continue
    from Cons.IH [of "Suc i" s'] obtain cs' where
      "calls_in (trace (snd (query_loop w ttl n d key (Suc i) qs s'))) = calls_in (trace s') @ cs'"
      by blast
    with body cs Continue show ?thesis by auto
  qed
qed

text \<open>A query of the list that is not done is reached by the loop, and then Engine A is
  called for it, unless the loop returns on a hard block.\<close>

lemma query_loop_retry:
  "query \<in> set qs \<Longrightarrow> \<not> is_done (checkpoint t) key query \<Longrightarrow>
   \<exists>cs. calls_in (trace (snd (query_loop w ttl n d key i qs t))) = calls_in (trace t) @ cs \<and>
        (fst (query_loop w ttl n d key i qs t) = Return \<or> (Bing, query) \<in> set cs)"
proof (induction qs arbitrary: i t)
  case Nil
  then show ?case by simp
next
  case (Cons q qs)
  obtain c t' where body: "query_body w ttl n d key i q t = (c, t')"
    by (cases "query_body w ttl n d key i q t")
  obtain cs where cs: "calls_in (trace t') = calls_in (trace t) @ cs"
      "is_done (checkpoint t) key q \<or> (Bing, q) \<in> set cs"
    using query_body_calls [of w ttl n d key i q t] body by auto
  show ?case
  proof (cases c)
    case Return
    with body cs show ?thesis by auto
  next
    case Continue
    show ?thesis
    proof (cases "q = query")
      case True
      obtain cs' where
        "calls_in (trace (snd (query_loop w ttl n d key (Suc i) qs t'))) = calls_in (trace t') @ cs'"
        using query_loop_calls by blast
      moreover from True Cons.prems(2) cs(2) have "(Bing, query) \<in> set cs" by auto
      ultimately show ?thesis using body Continue cs(1) by auto
    next
      case False
      with Cons.prems have "query \<in> set qs" by auto
      moreover have "\<not> is_done (checkpoint t') key query"
        using query_body_is_done_other [of query q w ttl n d key i t key] False Cons.prems(2) body
        by auto
      ultimately obtain cs' where
        "calls_in (trace (snd (query_loop w ttl n d key (Suc i) qs t'))) = calls_in (trace t') @ cs'"
        "fst (query_loop w ttl n d key (Suc i) qs t') = Return \<or> (Bing, query) \<in> set cs'"
        using Cons.IH [of t' "Suc i"] by blast
      with body Continue cs(1) show ?thesis by auto
    qed
  qed
qed

subsection \<open>The example era\<close>

lemma era_egypt_folder:
  "fst (build_era_folder era_egypt (path_of ASSETS_DIR) s) =
     Path False [''assets'', ''01_ancient_egypt_and_mesopotamia'']"
  by (simp add: build_era_folder_def era_egypt_def Let_def slug_example joinpath_def path_of_def
      zfill_def ASSETS_DIR_def str1)

lemma era_egypt_key [simp]:
  "path_name (fst (build_era_folder era_egypt (path_of ASSETS_DIR) s)) = ''01_ancient_egypt_and_mesopotamia''"
  by (simp add: era_egypt_folder path_name_def)

lemma era_egypt_dir [simp]:
  "path_str (fst (build_era_folder era_egypt (path_of ASSETS_DIR) s)) = ''assets/01_ancient_egypt_and_mesopotamia''"
  by (simp add: era_egypt_folder path_str_def)

lemma era_egypt_fields [simp]:
  "title era_egypt = ''Ancient Egypt and Mesopotamia''"
  "icrawler_queries era_egypt = [''egyptian shendyt kilt'', ''sumerian kaunakes skirt'']"
  by (simp_all add: era_egypt_def)

lemma bing_call_raising:
  "engine_outcome w (engine_calls s) = (Raises e, k) \<Longrightarrow> \<not> isinstance e ConnectionError \<Longrightarrow>
   \<not> isinstance e TimeoutError \<Longrightarrow>
   fst (bing_call w d i n q s) = (if is_blocked e then SKIP_ERA else SKIP_QUERY)"
  by (simp add: bing_call_def run_engine_def crawl_bing_def crawl_def Let_def)

lemma bing_call_returning:
  "engine_outcome w (engine_calls s) = (Returns, k) \<Longrightarrow> fst (bing_call w d i n q s) = OK"
  by (simp add: bing_call_def run_engine_def crawl_bing_def crawl_def Let_def)

lemma baidu_call_raising:
  "engine_outcome w (Suc (engine_calls s)) = (Raises e, k) \<Longrightarrow> \<not> isinstance e ConnectionError \<Longrightarrow>
   \<not> isinstance e TimeoutError \<Longrightarrow>
   fst (baidu_call w d i n q s) = (if is_blocked e then SKIP_ERA else SKIP_QUERY)"
  by (simp add: baidu_call_def run_engine_def crawl_baidu_def crawl_def Let_def case_prod_beta)

lemma baidu_call_returning:
  "engine_outcome w (Suc (engine_calls s)) = (Returns, k) \<Longrightarrow> fst (baidu_call w d i n q s) = OK"
  by (simp add: baidu_call_def run_engine_def crawl_baidu_def crawl_def Let_def case_prod_beta)

lemma other_exception_class [simp]:
  "\<not> isinstance e_http_403 ConnectionError" "\<not> isinstance e_http_403 TimeoutError"
  "\<not> isinstance e_value ConnectionError" "\<not> isinstance e_value TimeoutError"
  by (simp_all add: isinstance_def issubclass_def e_http_403_def e_value_def)

lemma s_init_fields [simp]:
  "checkpoint s_init = []" "trace s_init = []" "engine_calls s_init = 0" "saves s_init = 0"
  "draws s_init = 0"
  by (simp_all add: s_init_def)

lemma w_raising_outcome [simp]: "engine_outcome (w_raising e) k = (Raises e, 0)"
  by (simp add: w_raising_def)

lemma w_baidu_blocked_outcome [simp]:
  "engine_outcome w_baidu_blocked 0 = (Returns, 3)"
  "engine_outcome w_baidu_blocked (Suc 0) = (Raises e_http_403, 0)"
  by (simp_all add: w_baidu_blocked_def w_calm_def)

subsection \<open>Claims about the era processor\<close>

text \<open>
  Claim C8. When every query of the era is done in the checkpoint, \<open>process_era\<close> creates
  the folder, logs the skip and returns: these two are the only effects, so no engine is
  called, nothing sleeps, the checkpoint is not written, and the counters of engine
  calls, checkpoint writes and random draws stand as they were.
\<close>

theorem all_done_short_circuit:
  assumes "\<forall>q\<in>set (icrawler_queries e).
             is_done (checkpoint s) (path_name (fst (build_era_folder e base s))) q"
  shows "process_era w e base s =
           logger INFO (EraSkip (title e) (length (icrawler_queries e)))
             (snd (build_era_folder e base s)) \<and>
         trace (process_era w e base s) =
           trace s @ [Mkdir (path_str (fst (build_era_folder e base s))),
                      Logged INFO (EraSkip (title e) (length (icrawler_queries e)))] \<and>
         checkpoint (process_era w e base s) = checkpoint s \<and>
         engine_calls (process_era w e base s) = engine_calls s \<and>
         saves (process_era w e base s) = saves s \<and>
         draws (process_era w e base s) = draws s"
  using process_era_all_done [OF assms, of w] by simp

theorem all_done_short_circuit_witness:
  "trace (process_era w_calm era_egypt (path_of ASSETS_DIR) s_done) =
     [Mkdir ''assets/01_ancient_egypt_and_mesopotamia'',
      Logged INFO (EraSkip ''Ancient Egypt and Mesopotamia'' 2)] \<and>
   engine_calls (process_era w_calm era_egypt (path_of ASSETS_DIR) s_done) = 0 \<and>
   saves (process_era w_calm era_egypt (path_of ASSETS_DIR) s_done) = 0 \<and>
   draws (process_era w_calm era_egypt (path_of ASSETS_DIR) s_done) = 0"
  using all_done_short_circuit [of era_egypt s_done "path_of ASSETS_DIR" w_calm]
  by (simp add: s_done_def s_init_def is_done_def completed_of_def)

text \<open>
  Claim C2. Take an era and a query of its list that the loop reaches (in state \<open>sm\<close>, the
  queries before it having let the loop go on) and that is not done. If Engine A's
  invocation for it yields \<open>SKIP_ERA\<close>, \<open>process_era\<close> returns the state right after that
  invocation with one more log record: Engine A's call is the only engine call since the
  query was reached (Engine B is not called, no later query is processed), the
  checkpoint is the one of \<open>sm\<close> and is not written, and the query is not done. The same
  holds when Engine A does not yield \<open>SKIP_ERA\<close> and Engine B does, with the two engine
  calls of this query.
\<close>

theorem skip_era_returns_immediately:
  assumes dir: "dir = path_str (fst (build_era_folder e base s))"
    and key: "key = path_name (fst (build_era_folder e base s))"
    and n: "n = length (icrawler_queries e)"
    and qs: "icrawler_queries e = pre @ query # rest"
    and reach: "query_loop w (title e) n dir key 1 pre (loop_entry e base s) = (Continue, sm)"
    and nd: "\<not> is_done (checkpoint sm) key query"
  shows "(fst (bing_call w dir (Suc (length pre)) n query sm) = SKIP_ERA \<longrightarrow>
            process_era w e base s =
              logger WARNING (HardBlock ''Bing'' (title e))
                (snd (bing_call w dir (Suc (length pre)) n query sm)) \<and>
            calls_in (trace (process_era w e base s)) = calls_in (trace sm) @ [(Bing, query)] \<and>
            checkpoint (process_era w e base s) = checkpoint sm \<and>
            saves (process_era w e base s) = saves sm \<and>
            \<not> is_done (checkpoint (process_era w e base s)) key query) \<and>
         (fst (bing_call w dir (Suc (length pre)) n query sm) \<noteq> SKIP_ERA \<and>
          fst (baidu_call w dir (Suc (length pre)) n query sm) = SKIP_ERA \<longrightarrow>
            process_era w e base s =
              logger WARNING (HardBlock ''Baidu'' (title e))
                (snd (baidu_call w dir (Suc (length pre)) n query sm)) \<and>
            calls_in (trace (process_era w e base s)) =
              calls_in (trace sm) @ [(Bing, query), (Baidu, query)] \<and>
            checkpoint (process_era w e base s) = checkpoint sm \<and>
            saves (process_era w e base s) = saves sm \<and>
            \<not> is_done (checkpoint (process_era w e base s)) key query)"
proof -
  have "\<not> is_done (checkpoint (loop_entry e base s)) key query"
    using query_loop_is_done_mono [of "loop_entry e base s" key query w "title e" n dir key 1 pre]
      reach nd by auto
  then have nd0: "\<not> is_done (checkpoint s) key query" by simp
  have "query \<in> set (icrawler_queries e)" using qs by simp
  from process_era_loop [OF this, of s base w] nd0
  have pe: "process_era w e base s =
      (case query_loop w (title e) n dir key (Suc 0) (pre @ query # rest) (loop_entry e base s) of
         (Return, s4) \<Rightarrow> s4
       | (Continue, s4) \<Rightarrow> logger INFO (EraComplete (title e)) s4)"
    by (simp add: dir key n qs)
  have loop: "query_loop w (title e) n dir key (Suc 0) (pre @ query # rest) (loop_entry e base s) =
      query_loop w (title e) n dir key (Suc (length pre)) (query # rest) sm"
    using reach by (simp add: query_loop_append)
  show ?thesis
  proof (intro conjI impI)
    assume a: "fst (bing_call w dir (Suc (length pre)) n query sm) = SKIP_ERA"
    show b: "process_era w e base s =
        logger WARNING (HardBlock ''Bing'' (title e)) (snd (bing_call w dir (Suc (length pre)) n query sm))"
      by (simp add: pe loop query_body_bing_abort [OF nd a])
    show "calls_in (trace (process_era w e base s)) = calls_in (trace sm) @ [(Bing, query)]"
      "checkpoint (process_era w e base s) = checkpoint sm"
      "saves (process_era w e base s) = saves sm"
      "\<not> is_done (checkpoint (process_era w e base s)) key query"
      using nd by (simp_all add: b)
  next
    assume a: "fst (bing_call w dir (Suc (length pre)) n query sm) \<noteq> SKIP_ERA \<and>
               fst (baidu_call w dir (Suc (length pre)) n query sm) = SKIP_ERA"
    show b: "process_era w e base s =
        logger WARNING (HardBlock ''Baidu'' (title e)) (snd (baidu_call w dir (Suc (length pre)) n query sm))"
      using a by (simp add: pe loop query_body_baidu_abort [OF nd])
    show "calls_in (trace (process_era w e base s)) = calls_in (trace sm) @ [(Bing, query), (Baidu, query)]"
      "checkpoint (process_era w e base s) = checkpoint sm"
      "saves (process_era w e base s) = saves sm"
      "\<not> is_done (checkpoint (process_era w e base s)) key query"
      using nd by (simp_all add: b)
  qed
qed

theorem skip_era_returns_immediately_witness:
  "calls_in (trace (process_era (w_raising e_http_403) era_egypt (path_of ASSETS_DIR) s_init)) =
     [(Bing, ''egyptian shendyt kilt'')] \<and>
   checkpoint (process_era (w_raising e_http_403) era_egypt (path_of ASSETS_DIR) s_init) = [] \<and>
   saves (process_era (w_raising e_http_403) era_egypt (path_of ASSETS_DIR) s_init) = 0 \<and>
   calls_in (trace (process_era w_baidu_blocked era_egypt (path_of ASSETS_DIR) s_init)) =
     [(Bing, ''egyptian shendyt kilt''), (Baidu, ''egyptian shendyt kilt'')] \<and>
   checkpoint (process_era w_baidu_blocked era_egypt (path_of ASSETS_DIR) s_init) = [] \<and>
   saves (process_era w_baidu_blocked era_egypt (path_of ASSETS_DIR) s_init) = 0"
proof -
  let ?base = "path_of ASSETS_DIR"
  let ?dir = "''assets/01_ancient_egypt_and_mesopotamia''"
  let ?key = "''01_ancient_egypt_and_mesopotamia''"
  let ?q = "''egyptian shendyt kilt''"
  let ?sm = "loop_entry era_egypt ?base s_init"
  have dir: "?dir = path_str (fst (build_era_folder era_egypt ?base s_init))" by simp
  have key: "?key = path_name (fst (build_era_folder era_egypt ?base s_init))" by simp
  have n: "2 = length (icrawler_queries era_egypt)" by simp
  have qs: "icrawler_queries era_egypt = [] @ ?q # [''sumerian kaunakes skirt'']" by simp
  have reach: "query_loop w (title era_egypt) 2 ?dir ?key 1 [] ?sm = (Continue, ?sm)" for w
    by simp
  have nd: "\<not> is_done (checkpoint ?sm) ?key ?q"
    by (simp add: is_done_def completed_of_def)
  have bing1: "fst (bing_call (w_raising e_http_403) ?dir (Suc (length [])) 2 ?q ?sm) = SKIP_ERA"
    using bing_call_raising [of "w_raising e_http_403" ?sm e_http_403 0] is_blocked_e_http_403
    by simp
  have bing2: "fst (bing_call w_baidu_blocked ?dir (Suc (length [])) 2 ?q ?sm) \<noteq> SKIP_ERA"
    using bing_call_returning [of w_baidu_blocked ?sm 3] by simp
  have baidu2: "fst (baidu_call w_baidu_blocked ?dir (Suc (length [])) 2 ?q ?sm) = SKIP_ERA"
    using baidu_call_raising [of w_baidu_blocked ?sm e_http_403 0] is_blocked_e_http_403
    by simp
  from skip_era_returns_immediately [OF dir key n qs reach nd] bing1
  have a: "calls_in (trace (process_era (w_raising e_http_403) era_egypt ?base s_init)) =
             calls_in (trace ?sm) @ [(Bing, ?q)]"
     "checkpoint (process_era (w_raising e_http_403) era_egypt ?base s_init) = checkpoint ?sm"
     "saves (process_era (w_raising e_http_403) era_egypt ?base s_init) = saves ?sm"
    by blast+
  from skip_era_returns_immediately [OF dir key n qs reach nd] bing2 baidu2
  have b: "calls_in (trace (process_era w_baidu_blocked era_egypt ?base s_init)) =
             calls_in (trace ?sm) @ [(Bing, ?q), (Baidu, ?q)]"
     "checkpoint (process_era w_baidu_blocked era_egypt ?base s_init) = checkpoint ?sm"
     "saves (process_era w_baidu_blocked era_egypt ?base s_init) = saves ?sm"
    by blast+
  from a b show ?thesis by simp
qed

lemma process_era_calls_retry:
  assumes "query \<in> set (icrawler_queries e)"
    and "\<not> is_done (checkpoint t) (path_name (fst (build_era_folder e base t))) query"
  shows "\<exists>cs. calls_in (trace (process_era w e base t)) = calls_in (trace t) @ cs \<and>
           (fst (query_loop w (title e) (length (icrawler_queries e))
                   (path_str (fst (build_era_folder e base t)))
                   (path_name (fst (build_era_folder e base t))) 1 (icrawler_queries e)
                   (loop_entry e base t)) = Return \<or> (Bing, query) \<in> set cs)"
proof -
  let ?loop = "query_loop w (title e) (length (icrawler_queries e))
                   (path_str (fst (build_era_folder e base t)))
                   (path_name (fst (build_era_folder e base t))) 1 (icrawler_queries e)
                   (loop_entry e base t)"
  obtain cs where cs: "calls_in (trace (snd ?loop)) = calls_in (trace (loop_entry e base t)) @ cs"
      "fst ?loop = Return \<or> (Bing, query) \<in> set cs"
    using query_loop_retry [OF assms(1), of "loop_entry e base t" "path_name (fst (build_era_folder e base t))"] assms(2)
    by (metis loop_entry_fields(1))
  have "calls_in (trace (process_era w e base t)) = calls_in (trace (snd ?loop))"
    by (simp add: process_era_loop [OF assms] split: prod.splits control.splits)
  with cs show ?thesis by auto
qed

text \<open>
  Claim C3. Take an iteration of the loop of an era for a query that is not done, in
  which neither engine yields \<open>SKIP_ERA\<close>. The loop goes on, and after the iteration the
  query is done if and only if one of the two engines yielded \<open>OK\<close>. When neither did, the
  checkpoint is unchanged and is not written, so the query is absent from it; and a later
  run of \<open>process_era\<close> for the era that starts from this checkpoint calls Engine A for
  the query again, unless its loop returns on a hard block.
\<close>

theorem marked_done_iff_engine_ok:
  assumes key: "key = path_name (fst (build_era_folder e base s))"
    and dir: "dir = path_str (fst (build_era_folder e base s))"
    and n: "n = length (icrawler_queries e)"
    and q: "query \<in> set (icrawler_queries e)"
    and nd: "\<not> is_done (checkpoint s) key query"
    and bing: "fst (bing_call w dir i n query s) \<noteq> SKIP_ERA"
    and baidu: "fst (baidu_call w dir i n query s) \<noteq> SKIP_ERA"
  shows "fst (query_body w (title e) n dir key i query s) = Continue \<and>
         (is_done (checkpoint (snd (query_body w (title e) n dir key i query s))) key query \<longleftrightarrow>
            fst (bing_call w dir i n query s) = OK \<or> fst (baidu_call w dir i n query s) = OK) \<and>
         (fst (bing_call w dir i n query s) \<noteq> OK \<and> fst (baidu_call w dir i n query s) \<noteq> OK \<longrightarrow>
            checkpoint (snd (query_body w (title e) n dir key i query s)) = checkpoint s \<and>
            saves (snd (query_body w (title e) n dir key i query s)) = saves s \<and>
            (\<forall>w2 t. checkpoint t = checkpoint (snd (query_body w (title e) n dir key i query s)) \<longrightarrow>
               (\<exists>cs. calls_in (trace (process_era w2 e base t)) = calls_in (trace t) @ cs \<and>
                  (fst (query_loop w2 (title e) n dir key 1 (icrawler_queries e) (loop_entry e base t))
                     = Return \<or> (Bing, query) \<in> set cs))))"
proof -
  note body = query_body_processed [OF nd bing baidu, of "title e"]
  have marked: "is_done (checkpoint (mark_done w key query s)) key query"
    by (simp add: is_done_def checkpoint_mark_done)
  have retry: "\<exists>cs. calls_in (trace (process_era w2 e base t)) = calls_in (trace t) @ cs \<and>
                  (fst (query_loop w2 (title e) n dir key 1 (icrawler_queries e) (loop_entry e base t))
                     = Return \<or> (Bing, query) \<in> set cs)"
    if "checkpoint t = checkpoint s" for w2 t
  proof -
    have f: "fst (build_era_folder e base t) = fst (build_era_folder e base s)"
      by (rule fst_build_era_folder)
    from nd that have "\<not> is_done (checkpoint t) (path_name (fst (build_era_folder e base t))) query"
      by (simp add: key f)
    from process_era_calls_retry [OF q this, of w2] show ?thesis
      by (simp add: key dir n f)
  qed
  show ?thesis
    using body(1,2,3) marked nd retry by auto
qed

theorem marked_done_iff_engine_ok_witness:
  "is_done (checkpoint (snd (query_body w_calm (title era_egypt) 2
          ''assets/01_ancient_egypt_and_mesopotamia'' ''01_ancient_egypt_and_mesopotamia'' 1
          ''egyptian shendyt kilt'' s_init)))
      ''01_ancient_egypt_and_mesopotamia'' ''egyptian shendyt kilt'' \<and>
   \<not> is_done (checkpoint (snd (query_body (w_raising e_value) (title era_egypt) 2
          ''assets/01_ancient_egypt_and_mesopotamia'' ''01_ancient_egypt_and_mesopotamia'' 1
          ''egyptian shendyt kilt'' s_init)))
      ''01_ancient_egypt_and_mesopotamia'' ''egyptian shendyt kilt'' \<and>
   checkpoint (snd (query_body (w_raising e_value) (title era_egypt) 2
          ''assets/01_ancient_egypt_and_mesopotamia'' ''01_ancient_egypt_and_mesopotamia'' 1
          ''egyptian shendyt kilt'' s_init)) = [] \<and>
   saves (snd (query_body (w_raising e_value) (title era_egypt) 2
          ''assets/01_ancient_egypt_and_mesopotamia'' ''01_ancient_egypt_and_mesopotamia'' 1
          ''egyptian shendyt kilt'' s_init)) = 0"
proof -
  let ?base = "path_of ASSETS_DIR"
  let ?dir = "''assets/01_ancient_egypt_and_mesopotamia''"
  let ?key = "''01_ancient_egypt_and_mesopotamia''"
  let ?q = "''egyptian shendyt kilt''"
  have key: "?key = path_name (fst (build_era_folder era_egypt ?base s_init))" by simp
  have dir: "?dir = path_str (fst (build_era_folder era_egypt ?base s_init))" by simp
  have n: "2 = length (icrawler_queries era_egypt)" by simp
  have q: "?q \<in> set (icrawler_queries era_egypt)" by simp
  have nd: "\<not> is_done (checkpoint s_init) ?key ?q" by (simp add: is_done_def completed_of_def)
  have ok: "fst (bing_call w_calm ?dir 1 2 ?q s_init) = OK"
      "fst (baidu_call w_calm ?dir 1 2 ?q s_init) = OK"
    using bing_call_returning [of w_calm s_init 3] baidu_call_returning [of w_calm s_init 3]
    by (simp_all add: w_calm_def)
  have failed: "fst (bing_call (w_raising e_value) ?dir 1 2 ?q s_init) = SKIP_QUERY"
      "fst (baidu_call (w_raising e_value) ?dir 1 2 ?q s_init) = SKIP_QUERY"
    using bing_call_raising [of "w_raising e_value" s_init e_value 0]
      baidu_call_raising [of "w_raising e_value" s_init e_value 0] not_is_blocked_e_value
    by simp_all
  from marked_done_iff_engine_ok [OF key dir n q nd, of w_calm 1] ok
  have a: "is_done (checkpoint (snd (query_body w_calm (title era_egypt) 2 ?dir ?key 1 ?q s_init)))
             ?key ?q"
    by simp
  from marked_done_iff_engine_ok [OF key dir n q nd, of "w_raising e_value" 1] failed
  have b: "\<not> is_done (checkpoint (snd (query_body (w_raising e_value) (title era_egypt) 2 ?dir
                ?key 1 ?q s_init))) ?key ?q"
      "checkpoint (snd (query_body (w_raising e_value) (title era_egypt) 2 ?dir ?key 1 ?q s_init)) =
         checkpoint s_init"
      "saves (snd (query_body (w_raising e_value) (title era_egypt) 2 ?dir ?key 1 ?q s_init)) =
         saves s_init"
    by (simp_all add: is_done_def completed_of_def)
  from a b show ?thesis by simp
qed

lemma uniform_bounds:
  "0 \<le> r \<Longrightarrow> r < 1 \<Longrightarrow>
   JITTER_MIN \<le> uniform JITTER_MIN JITTER_MAX r \<and> uniform JITTER_MIN JITTER_MAX r \<le> JITTER_MAX"
  by (simp add: uniform_def JITTER_MIN_def JITTER_MAX_def)

lemma query_body_jitters:
  assumes "0 \<le> random_outcome w (draws s)" "random_outcome w (draws s) < 1"
  shows "\<exists>js. jitters_in (trace (snd (query_body w ttl n d key i q s))) = jitters_in (trace s) @ js \<and>
           (\<forall>(j, x)\<in>set js. j = i \<and> j < n \<and> JITTER_MIN \<le> x \<and> x \<le> JITTER_MAX)"
  using uniform_bounds [OF assms]
  by (simp add: query_body_def Let_def case_prod_beta crawl_bing_def crawl_baidu_def)

lemma query_loop_jitters:
  assumes "\<forall>k. 0 \<le> random_outcome w k \<and> random_outcome w k < 1"
  shows "\<exists>js. jitters_in (trace (snd (query_loop w ttl n d key i qs s))) = jitters_in (trace s) @ js \<and>
           (\<forall>(j, x)\<in>set js. i \<le> j \<and> j < n \<and> JITTER_MIN \<le> x \<and> x \<le> JITTER_MAX)"
proof (induction qs arbitrary: i s)
  case Nil
  then show ?case by simp
next
  case (Cons q qs)
  obtain c s' where body: "query_body w ttl n d key i q s = (c, s')"
    by (cases "query_body w ttl n d key i q s")
  from assms have "0 \<le> random_outcome w (draws s)" "random_outcome w (draws s) < 1" by auto
  from query_body_jitters [OF this, of ttl n d key i q] body
  obtain js where js: "jitters_in (trace s') = jitters_in (trace s) @ js"
      "\<forall>(j, x)\<in>set js. j = i \<and> j < n \<and> JITTER_MIN \<le> x \<and> x \<le> JITTER_MAX"
    by auto
  show ?case
  proof (cases c)
    case Return
    with body js show ?thesis by auto
  next
    case Continue
    from Cons.IH [of "Suc i" s'] obtain js' where js':
      "jitters_in (trace (snd (query_loop w ttl n d key (Suc i) qs s'))) = jitters_in (trace s') @ js'"
      "\<forall>(j, x)\<in>set js'. Suc i \<le> j \<and> j < n \<and> JITTER_MIN \<le> x \<and> x \<le> JITTER_MAX"
      by blast
    have "\<forall>(j, x)\<in>set (js @ js'). i \<le> j \<and> j < n \<and> JITTER_MIN \<le> x \<and> x \<le> JITTER_MAX"
      using js(2) js'(2) by fastforce
    with body Continue js(1) js'(1) show ?thesis
      by (intro exI [of _ "js @ js'"]) simp
  qed
qed

text \<open>
  Claim C9. Let every value of \<open>random.random()\<close> lie in the interval from 0 (included) to 1
  (excluded). Then every jitter sleep that \<open>process_era\<close> performs lasts between
  \<open>JITTER_MIN\<close> = 2 and \<open>JITTER_MAX\<close> = 5 seconds, and it follows a query whose loop counter
  is below the number of queries of the era: none follows the final query. (Durations are
  real numbers here.)
\<close>

theorem jitter_within_bounds:
  assumes "\<forall>k. 0 \<le> random_outcome w k \<and> random_outcome w k < 1"
  shows "JITTER_MIN = 2 \<and> JITTER_MAX = 5 \<and>
         (\<exists>js. jitters_in (trace (process_era w e base s)) = jitters_in (trace s) @ js \<and>
            (\<forall>(i, d)\<in>set js. JITTER_MIN \<le> d \<and> d \<le> JITTER_MAX \<and>
                              1 \<le> i \<and> i < length (icrawler_queries e)))"
proof -
  obtain js where js:
    "jitters_in (trace (snd (query_loop w (title e) (length (icrawler_queries e))
         (path_str (fst (build_era_folder e base s))) (path_name (fst (build_era_folder e base s)))
         1 (icrawler_queries e) (loop_entry e base s)))) = jitters_in (trace (loop_entry e base s)) @ js"
    "\<forall>(j, x)\<in>set js. 1 \<le> j \<and> j < length (icrawler_queries e) \<and> JITTER_MIN \<le> x \<and> x \<le> JITTER_MAX"
    using query_loop_jitters [OF assms] by blast
  have "jitters_in (trace (process_era w e base s)) = jitters_in (trace s) \<or>
        jitters_in (trace (process_era w e base s)) = jitters_in (trace s) @ js"
  proof (cases "\<forall>q\<in>set (icrawler_queries e).
             is_done (checkpoint s) (path_name (fst (build_era_folder e base s))) q")
    case True
    then show ?thesis by (simp add: process_era_all_done)
  next
    case False
    then obtain q where "q \<in> set (icrawler_queries e)"
      "\<not> is_done (checkpoint s) (path_name (fst (build_era_folder e base s))) q" by blast
    from process_era_loop [OF this, of w] js(1) show ?thesis
      by (auto split: prod.splits control.splits)
  qed
  then have "\<exists>js. jitters_in (trace (process_era w e base s)) = jitters_in (trace s) @ js \<and>
            (\<forall>(i, d)\<in>set js. JITTER_MIN \<le> d \<and> d \<le> JITTER_MAX \<and>
                              1 \<le> i \<and> i < length (icrawler_queries e))"
  proof
    assume "jitters_in (trace (process_era w e base s)) = jitters_in (trace s)"
    then show ?thesis by (intro exI [of _ "[]"]) simp
  next
    assume "jitters_in (trace (process_era w e base s)) = jitters_in (trace s) @ js"
    with js(2) show ?thesis by (intro exI [of _ js]) auto
  qed
  then show ?thesis by (simp add: JITTER_MIN_def JITTER_MAX_def)
qed

lemma w_calm_fields [simp]:
  "engine_outcome w_calm k = (Returns, 3)" "random_outcome w_calm k = 1 / 2"
  "save_outcome w_calm k = None"
  by (simp_all add: w_calm_def)

lemma calm_body:
  assumes "\<not> is_done (checkpoint s) key q"
  shows "fst (query_body w_calm ttl n d key i q s) = Continue"
    and "jitters_in (trace (snd (query_body w_calm ttl n d key i q s))) =
           jitters_in (trace s) @ (if i < n then [(i, 7 / 2)] else [])"
proof -
  have b: "fst (bing_call w_calm d i n q s) \<noteq> SKIP_ERA" "fst (baidu_call w_calm d i n q s) \<noteq> SKIP_ERA"
    using bing_call_returning [of w_calm s 3 d i n q] baidu_call_returning [of w_calm s 3 d i n q]
    by simp_all
  from query_body_processed(1) [OF assms b] show "fst (query_body w_calm ttl n d key i q s) = Continue" .
  from query_body_processed(5) [OF assms b, of ttl]
  show "jitters_in (trace (snd (query_body w_calm ttl n d key i q s))) =
           jitters_in (trace s) @ (if i < n then [(i, 7 / 2)] else [])"
    by (simp add: uniform_def JITTER_MIN_def JITTER_MAX_def)
qed

lemma calm_loop_two:
  assumes "q1 \<noteq> q2" "\<not> is_done (checkpoint s) key q1" "\<not> is_done (checkpoint s) key q2"
  shows "fst (query_loop w_calm ttl (Suc (Suc 0)) d key (Suc 0) [q1, q2] s) = Continue"
    and "jitters_in (trace (snd (query_loop w_calm ttl (Suc (Suc 0)) d key (Suc 0) [q1, q2] s))) =
           jitters_in (trace s) @ [(Suc 0, 7 / 2)]"
proof -
  obtain c1 s1 where b1: "query_body w_calm ttl (Suc (Suc 0)) d key (Suc 0) q1 s = (c1, s1)"
    by (cases "query_body w_calm ttl (Suc (Suc 0)) d key (Suc 0) q1 s")
  from calm_body [OF assms(2), of ttl "Suc (Suc 0)" d "Suc 0"] b1
  have c1: "c1 = Continue" and j1: "jitters_in (trace s1) = jitters_in (trace s) @ [(Suc 0, 7 / 2)]"
    by simp_all
  have nd2: "\<not> is_done (checkpoint s1) key q2"
    using query_body_is_done_other [of q2 q1 w_calm ttl "Suc (Suc 0)" d key "Suc 0" s key]
      assms(1,3) b1 by simp
  obtain c2 s2 where b2: "query_body w_calm ttl (Suc (Suc 0)) d key (Suc (Suc 0)) q2 s1 = (c2, s2)"
    by (cases "query_body w_calm ttl (Suc (Suc 0)) d key (Suc (Suc 0)) q2 s1")
  from calm_body [OF nd2, of ttl "Suc (Suc 0)" d "Suc (Suc 0)"] b2
  have c2: "c2 = Continue" and j2: "jitters_in (trace s2) = jitters_in (trace s1)"
    by simp_all
  have "query_loop w_calm ttl (Suc (Suc 0)) d key (Suc 0) [q1, q2] s = (Continue, s2)"
    by (simp add: b1 b2 c1 c2)
  with j1 j2 show "fst (query_loop w_calm ttl (Suc (Suc 0)) d key (Suc 0) [q1, q2] s) = Continue"
    and "jitters_in (trace (snd (query_loop w_calm ttl (Suc (Suc 0)) d key (Suc 0) [q1, q2] s))) =
           jitters_in (trace s) @ [(Suc 0, 7 / 2)]"
    by simp_all
qed

lemma calm_era_egypt_jitters:
  "jitters_in (trace (process_era w_calm era_egypt (path_of ASSETS_DIR) s_init)) = [(Suc 0, 7 / 2)]"
proof -
  let ?base = "path_of ASSETS_DIR"
  let ?q1 = "''egyptian shendyt kilt''"
  let ?q2 = "''sumerian kaunakes skirt''"
  have nd: "\<not> is_done (checkpoint s_init) (path_name (fst (build_era_folder era_egypt ?base s_init))) ?q1"
    by (simp add: is_done_def completed_of_def)
  have q: "?q1 \<in> set (icrawler_queries era_egypt)" by simp
  have nds: "\<not> is_done (checkpoint (loop_entry era_egypt ?base s_init)) ''01_ancient_egypt_and_mesopotamia'' ?q1"
     "\<not> is_done (checkpoint (loop_entry era_egypt ?base s_init)) ''01_ancient_egypt_and_mesopotamia'' ?q2"
    by (simp_all add: is_done_def completed_of_def)
  have ne: "?q1 \<noteq> ?q2" by simp
  note l = calm_loop_two [OF ne nds, of "''Ancient Egypt and Mesopotamia''" "''assets/01_ancient_egypt_and_mesopotamia''"]
  show ?thesis
    unfolding process_era_loop [OF q nd]
    using l by (simp add: split_beta split: control.splits)
qed

theorem jitter_within_bounds_witness:
  "jitters_in (trace (process_era w_calm era_egypt (path_of ASSETS_DIR) s_init)) = [(1, 7 / 2)] \<and>
   JITTER_MIN \<le> 7 / 2 \<and> 7 / 2 \<le> JITTER_MAX \<and> (1::nat) < length (icrawler_queries era_egypt)"
proof -
  have rnd: "\<forall>k. 0 \<le> random_outcome w_calm k \<and> random_outcome w_calm k < 1" by simp
  from jitter_within_bounds [OF rnd, of era_egypt "path_of ASSETS_DIR" s_init] calm_era_egypt_jitters
  show ?thesis by (simp add: JITTER_MIN_def JITTER_MAX_def)
qed

section \<open>The entry point\<close>






end
